theory Spec2Isabelle
  imports Main
begin

section \<open>Strings as the engine uses them\<close>

text \<open>
  A JavaScript string is modelled as a \<open>string\<close>; a character stands for one code unit
  below 256. The white space that \<open>String.prototype.trim\<close> removes is, in that range,
  TAB, LF, VT, FF, CR, SPACE and NBSP.
\<close>

definition isWhiteSpace :: "char \<Rightarrow> bool" where
  "isWhiteSpace c = (c \<in> set [CHR 0x09, CHR 0x0A, CHR 0x0B, CHR 0x0C, CHR 0x0D, CHR 0x20, CHR 0xA0])"

definition trim :: "string \<Rightarrow> string" where
  "trim s = rev (dropWhile isWhiteSpace (rev (dropWhile isWhiteSpace s)))"

text \<open>\<open>s.split(c)\<close> for a one-character separator: the result always has a first piece.\<close>

fun split_on :: "char \<Rightarrow> string \<Rightarrow> string list" where
  "split_on c [] = [[]]"
| "split_on c (x # xs) =
     (if x = c then [] # split_on c xs
      else (case split_on c xs of [] \<Rightarrow> [[x]] | s # ss \<Rightarrow> (x # s) # ss))"

fun join_with :: "string \<Rightarrow> string list \<Rightarrow> string" where
  "join_with sep [] = []"
| "join_with sep [s] = s"
| "join_with sep (s # t # ss) = s @ sep @ join_with sep (t # ss)"

definition endsWith :: "string \<Rightarrow> string \<Rightarrow> bool" where
  "endsWith s suffix = (length suffix \<le> length s \<and> drop (length s - length suffix) s = suffix)"

definition backslash :: char where
  "backslash = CHR 0x5C"

section \<open>The path module (POSIX flavour)\<close>

text \<open>
  \<open>path.normalize\<close>, \<open>path.join\<close>, \<open>path.basename\<close>, \<open>path.dirname\<close> and \<open>path.sep\<close>
  belong to the runtime, not to the repository. They are modelled after the POSIX
  implementation: the separator is \<open>/\<close>, a backslash is an ordinary character.
  \<open>normalizeString\<close> walks the \<open>/\<close>-separated segments keeping a stack (top first):
  empty segments and \<open>.\<close> are dropped, \<open>..\<close> removes the segment on top unless
  that is itself \<open>..\<close> or the stack is empty, in which case it is kept only for a
  relative path.
\<close>

definition path_sep :: char where
  "path_sep = CHR ''/''"

definition normalizeStep :: "bool \<Rightarrow> string list \<Rightarrow> string \<Rightarrow> string list" where
  "normalizeStep allowAboveRoot stack seg =
     (if seg = [] \<or> seg = ''.'' then stack
      else if seg = ''..'' then
        (case stack of
           [] \<Rightarrow> (if allowAboveRoot then [''..''] else [])
         | seg0 # rest \<Rightarrow>
             (if seg0 \<noteq> ''..'' then rest
              else if allowAboveRoot then ''..'' # stack else stack))
      else seg # stack)"

definition normalizeString :: "string \<Rightarrow> bool \<Rightarrow> string" where
  "normalizeString p allowAboveRoot =
     join_with ''/'' (rev (foldl (normalizeStep allowAboveRoot) [] (split_on CHR ''/'' p)))"

definition path_normalize :: "string \<Rightarrow> string" where
  "path_normalize p =
     (if p = [] then ''.''
      else
        let isAbsolute = (hd p = CHR ''/'');
            trailingSeparator = (last p = CHR ''/'');
            q = normalizeString p (\<not> isAbsolute)
        in if q = [] then
             (if isAbsolute then ''/'' else if trailingSeparator then ''./'' else ''.'')
           else
             (let q' = (if trailingSeparator then q @ ''/'' else q)
              in if isAbsolute then CHR ''/'' # q' else q'))"

text \<open>\<open>path.join\<close>: the non-empty arguments joined by \<open>/\<close>, then normalised.\<close>

definition path_join :: "string list \<Rightarrow> string" where
  "path_join args =
     (let joined = join_with ''/'' (filter (\<lambda>a. a \<noteq> []) args)
      in if joined = [] then ''.'' else path_normalize joined)"

definition path_basename :: "string \<Rightarrow> string" where
  "path_basename p =
     rev (takeWhile (\<lambda>c. c \<noteq> CHR ''/'') (dropWhile (\<lambda>c. c = CHR ''/'') (rev p)))"

definition path_dirname :: "string \<Rightarrow> string" where
  "path_dirname p =
     (if p = [] then ''.''
      else
        let hasRoot = (hd p = CHR ''/'');
            rest = dropWhile (\<lambda>c. c \<noteq> CHR ''/'') (dropWhile (\<lambda>c. c = CHR ''/'') (rev (tl p)));
            cut = length rest
        in if rest = [] then (if hasRoot then ''/'' else ''.'')
           else if hasRoot \<and> cut = 1 then ''//''
           else take cut p)"

section \<open>Path normaliser\<close>

definition stripTrailing :: "char \<Rightarrow> string \<Rightarrow> string" where
  "stripTrailing sep s = (if length s > 1 \<and> last s = sep then butlast s else s)"

definition isAsciiLetter :: "char \<Rightarrow> bool" where
  "isAsciiLetter c = ((65 \<le> (of_char c :: nat) \<and> (of_char c :: nat) \<le> 90) \<or>
                      (97 \<le> (of_char c :: nat) \<and> (of_char c :: nat) \<le> 122))"

definition toLowerChar :: "char \<Rightarrow> char" where
  "toLowerChar c =
     (let n = (of_char c :: nat)
      in if (65 \<le> n \<and> n \<le> 90) \<or> (192 \<le> n \<and> n \<le> 222 \<and> n \<noteq> 215)
         then char_of (n + 32) else c)"

definition toLowerCase :: "string \<Rightarrow> string" where
  "toLowerCase s = map toLowerChar s"

definition lowerDrive :: "string \<Rightarrow> string" where
  "lowerDrive s =
     (case s of
        d # colon # slash # rest \<Rightarrow>
          (if isAsciiLetter d \<and> colon = CHR '':'' \<and> slash = CHR ''/''
           then toLowerCase [d] @ '':'' @ drop 2 s else s)
      | _ \<Rightarrow> s)"

definition normalizePathForMatch :: "string \<Rightarrow> string" where
  "normalizePathForMatch input =
     (let normalized = path_normalize (trim input);
          normalized = stripTrailing path_sep normalized;
          normalized = map (\<lambda>c. if c = backslash then CHR ''/'' else c) normalized;
          normalized = stripTrailing CHR ''/'' normalized
      in lowerDrive normalized)"

section \<open>JSON values and JavaScript truthiness\<close>

text \<open>
  \<open>JSON.parse\<close> and the date parser behind \<open>new Date(raw).getTime()\<close> are runtime
  functions; the engine receives them through its environment (\<open>None\<close> is a thrown
  \<open>SyntaxError\<close>, respectively \<open>NaN\<close>). A decoded value is a \<open>json\<close>; an absent
  property (\<open>undefined\<close>) is \<open>None\<close>. The numeric payload of \<open>JNum\<close> is never
  inspected by the engine beyond truthiness.
\<close>

datatype json =
    JNull
  | JBool bool
  | JNum int
  | JStr string
  | JArr "json list"
  | JObj "(string \<times> json) list"

text \<open>Reading a property of a value that is not \<open>null\<close>; in an object the last entry of a key wins.\<close>

fun getProp :: "json \<Rightarrow> string \<Rightarrow> json option" where
  "getProp (JObj kvs) k = map_of (rev kvs) k"
| "getProp _ k = None"

fun truthy :: "json option \<Rightarrow> bool" where
  "truthy None = False"
| "truthy (Some JNull) = False"
| "truthy (Some (JBool b)) = b"
| "truthy (Some (JNum n)) = (n \<noteq> 0)"
| "truthy (Some (JStr s)) = (s \<noteq> [])"
| "truthy (Some (JArr _)) = True"
| "truthy (Some (JObj _)) = True"

text \<open>\<open>v && v.k\<close>: the property is read only from a truthy value.\<close>

definition guardedProp :: "json option \<Rightarrow> string \<Rightarrow> json option" where
  "guardedProp v k = (case v of Some j \<Rightarrow> (if truthy v then getProp j k else None) | None \<Rightarrow> None)"

text \<open>\<open>typeof v === 'string'\<close>, giving the string.\<close>

fun asString :: "json option \<Rightarrow> string option" where
  "asString (Some (JStr s)) = Some s"
| "asString _ = None"

definition truthyStr :: "string option \<Rightarrow> bool" where
  "truthyStr v = (case v of Some s \<Rightarrow> s \<noteq> [] | None \<Rightarrow> False)"

text \<open>\<open>if (!x && typeof v === 'string') x = v\<close>\<close>

definition firstSeen :: "string option \<Rightarrow> json option \<Rightarrow> string option" where
  "firstSeen cur v =
     (if \<not> truthyStr cur then (case asString v of Some s \<Rightarrow> Some s | None \<Rightarrow> cur) else cur)"

text \<open>\<open>if (ts !== null && (x === null || ts < x)) x = ts\<close>, and the same with \<open>>\<close>.\<close>

definition keepEarliest :: "int option \<Rightarrow> int option \<Rightarrow> int option" where
  "keepEarliest cur ts = (if ts \<noteq> None \<and> (cur = None \<or> the ts < the cur) then ts else cur)"

definition keepLatest :: "int option \<Rightarrow> int option \<Rightarrow> int option" where
  "keepLatest cur ts = (if ts \<noteq> None \<and> (cur = None \<or> the ts > the cur) then ts else cur)"

section \<open>Data model\<close>

datatype ConversationSource = claude | codex

record DiscoveredConversation =
  source :: ConversationSource
  jsonlFile :: string
  cwd :: "string option"
  sessionId :: "string option"
  firstMessageAt :: "int option"
  lastMessageAt :: "int option"
  messageCount :: nat
  firstUserMessage :: "string option"
  modelNames :: "string option"
  gitBranch :: "string option"
  cliVersion :: "string option"

record BackfillRequest =
  req_sources :: "ConversationSource list option"
  dryRun :: "bool option"
  maxFiles :: "int option"
  force :: "bool option"

record SourceStats =
  discovered :: nat
  matched :: nat
  unmapped :: nat
  existing :: nat
  inserted :: nat

datatype Mode = DryRun | Apply

record BackfillReport =
  success :: bool
  agent_id :: string
  mode :: Mode
  sources :: "ConversationSource \<Rightarrow> SourceStats"
  total_discovered :: nat
  total_matched :: nat
  total_unmapped :: nat
  total_existing :: nat
  total_inserted :: nat
  max_files_applied :: nat
  truncated :: bool
  working_directories :: "string list"
  active_sessions_seen :: nat
  unmapped_examples :: "string list"
  existing_examples :: "string list"
  inserted_examples :: "string list"

record SessionDiscoveryResult =
  activeSessionsSeen :: nat
  workingDirectories :: "string list"

definition MAX_EXAMPLES :: nat where
  "MAX_EXAMPLES = 20"

section \<open>Text helpers of the extractors\<close>

definition parseTimestamp :: "(string \<Rightarrow> int option) \<Rightarrow> json option \<Rightarrow> int option" where
  "parseTimestamp date raw =
     (case raw of
        Some (JStr s) \<Rightarrow> (if s = [] then None else date s)
      | _ \<Rightarrow> None)"

text \<open>\<open>raw.replace(/[\n\r\t]+/g, ' ')\<close>: every maximal run of LF, CR, TAB becomes one space.\<close>

definition isBreak :: "char \<Rightarrow> bool" where
  "isBreak c = (c = CHR 0x0A \<or> c = CHR 0x0D \<or> c = CHR 0x09)"

fun collapseFrom :: "bool \<Rightarrow> string \<Rightarrow> string" where
  "collapseFrom inRun [] = []"
| "collapseFrom inRun (c # cs) =
     (if isBreak c then (if inRun then collapseFrom True cs else CHR '' '' # collapseFrom True cs)
      else c # collapseFrom False cs)"

definition collapseBreaks :: "string \<Rightarrow> string" where
  "collapseBreaks s = collapseFrom False s"

definition truncateText :: "string option \<Rightarrow> nat \<Rightarrow> string option" where
  "truncateText raw maxLength =
     (if \<not> truthyStr raw then None
      else
        let normalized = trim (collapseBreaks (the raw))
        in if normalized = [] then None
           else if length normalized > maxLength then Some (take maxLength normalized)
           else Some normalized)"

fun startsWith :: "string \<Rightarrow> string \<Rightarrow> bool" where
  "startsWith s [] = True"
| "startsWith [] (p # ps) = False"
| "startsWith (c # cs) (p # ps) = (c = p \<and> startsWith cs ps)"

fun includesStr :: "string \<Rightarrow> string \<Rightarrow> bool" where
  "includesStr [] needle = (needle = [])"
| "includesStr (c # cs) needle = (startsWith (c # cs) needle \<or> includesStr cs needle)"

definition toDisplayModel :: "string \<Rightarrow> string" where
  "toDisplayModel model =
     (let normalized = toLowerCase model
      in if includesStr normalized ''sonnet'' then ''Sonnet 4.5''
         else if includesStr normalized ''haiku'' then ''Haiku 4.5''
         else if includesStr normalized ''opus'' then ''Opus 4.5''
         else model)"

definition isObject :: "json option \<Rightarrow> bool" where
  "isObject v = (case v of Some (JObj _) \<Rightarrow> True | Some (JArr _) \<Rightarrow> True | _ \<Rightarrow> False)"

definition chunkText :: "json \<Rightarrow> string" where
  "chunkText entry =
     (if \<not> isObject (Some entry) then []
      else if getProp entry ''type'' = Some (JStr ''input_text'') \<and> asString (getProp entry ''text'') \<noteq> None
        then the (asString (getProp entry ''text''))
      else if getProp entry ''type'' = Some (JStr ''text'') \<and> asString (getProp entry ''text'') \<noteq> None
        then the (asString (getProp entry ''text''))
      else [])"

definition parseUserContent :: "json option \<Rightarrow> string option" where
  "parseUserContent payload =
     (if \<not> isObject payload then None
      else
        (case getProp (the payload) ''content'' of
           Some (JStr content) \<Rightarrow> truncateText (Some content) 100
         | Some (JArr content) \<Rightarrow>
             (let chunks = filter (\<lambda>t. t \<noteq> []) (map chunkText content)
              in truncateText (Some (join_with '' '' chunks)) 100)
         | _ \<Rightarrow> None))"

text \<open>\<open>Set.prototype.add\<close> on an insertion-ordered set kept as a list.\<close>

definition setAdd :: "'a list \<Rightarrow> 'a \<Rightarrow> 'a list" where
  "setAdd xs x = (if x \<in> set xs then xs else xs @ [x])"

definition joinModels :: "string list \<Rightarrow> string option" where
  "joinModels modelSet = (if length modelSet > 0 then Some (join_with '', '' modelSet) else None)"

section \<open>Format extractors\<close>

text \<open>
  The local variables of an extractor are carried as the conversation under construction
  together with the model set. A line whose decoding throws, or decodes to \<open>null\<close> (the
  first property read then throws, before any assignment), leaves them unchanged.
\<close>

definition blankConversation :: "ConversationSource \<Rightarrow> string \<Rightarrow> nat \<Rightarrow> DiscoveredConversation" where
  "blankConversation src file n =
     \<lparr> source = src, jsonlFile = file, cwd = None, sessionId = None,
       firstMessageAt = None, lastMessageAt = None, messageCount = n,
       firstUserMessage = None, modelNames = None, gitBranch = None, cliVersion = None \<rparr>"

definition claudeMetadataLine ::
  "(string \<Rightarrow> json option) \<Rightarrow> (string \<Rightarrow> int option) \<Rightarrow>
   DiscoveredConversation \<times> string list \<Rightarrow> string \<Rightarrow> DiscoveredConversation \<times> string list" where
  "claudeMetadataLine parse date acc line =
     (case parse line of
        None \<Rightarrow> acc
      | Some JNull \<Rightarrow> acc
      | Some message \<Rightarrow>
          (let (c, modelSet) = acc;
               c = c\<lparr>sessionId := firstSeen (sessionId c) (getProp message ''sessionId'')\<rparr>;
               c = c\<lparr>cwd := firstSeen (cwd c) (getProp message ''cwd'')\<rparr>;
               c = c\<lparr>gitBranch := firstSeen (gitBranch c) (getProp message ''gitBranch'')\<rparr>;
               c = c\<lparr>cliVersion := firstSeen (cliVersion c) (getProp message ''version'')\<rparr>;
               parsedTs = parseTimestamp date (getProp message ''timestamp'');
               c = c\<lparr>firstMessageAt := keepEarliest (firstMessageAt c) parsedTs\<rparr>;
               c = (if \<not> truthyStr (firstUserMessage c) \<and> getProp message ''type'' = Some (JStr ''user'')
                    then (let msg = getProp message ''message'' in
                          case asString (guardedProp msg ''content'') of
                            Some content \<Rightarrow> c\<lparr>firstUserMessage := truncateText (Some content) 100\<rparr>
                          | None \<Rightarrow> c)
                    else c);
               modelSet = (if getProp message ''type'' = Some (JStr ''assistant'')
                    then (let msg = getProp message ''message'' in
                          case asString (guardedProp msg ''model'') of
                            Some model \<Rightarrow> setAdd modelSet (toDisplayModel model)
                          | None \<Rightarrow> modelSet)
                    else modelSet)
           in (c, modelSet)))"

text \<open>The backward scan: the first line, from the end, that decodes and carries a timestamp.\<close>

fun claudeLastTimestamp ::
  "(string \<Rightarrow> json option) \<Rightarrow> (string \<Rightarrow> int option) \<Rightarrow> string list \<Rightarrow> int option" where
  "claudeLastTimestamp parse date [] = None"
| "claudeLastTimestamp parse date (line # earlier) =
     (case parse line of
        None \<Rightarrow> claudeLastTimestamp parse date earlier
      | Some JNull \<Rightarrow> claudeLastTimestamp parse date earlier
      | Some message \<Rightarrow>
          (case parseTimestamp date (getProp message ''timestamp'') of
             Some parsedTs \<Rightarrow> Some parsedTs
           | None \<Rightarrow> claudeLastTimestamp parse date earlier))"

definition extractConversationFromClaudeLines ::
  "(string \<Rightarrow> json option) \<Rightarrow> (string \<Rightarrow> int option) \<Rightarrow> string list \<Rightarrow> string \<Rightarrow> DiscoveredConversation" where
  "extractConversationFromClaudeLines parse date lines file =
     (let metadataLines = take 80 lines;
          (c, modelSet) = foldl (claudeMetadataLine parse date)
                            (blankConversation claude file (length lines), []) metadataLines;
          lastAt = claudeLastTimestamp parse date (rev (drop (length lines - 50) lines))
      in c\<lparr>lastMessageAt := lastAt, modelNames := joinModels modelSet\<rparr>)"

definition codexLine ::
  "(string \<Rightarrow> json option) \<Rightarrow> (string \<Rightarrow> int option) \<Rightarrow>
   DiscoveredConversation \<times> string list \<Rightarrow> string \<Rightarrow> DiscoveredConversation \<times> string list" where
  "codexLine parse date acc line =
     (case parse line of
        None \<Rightarrow> acc
      | Some JNull \<Rightarrow> acc
      | Some event \<Rightarrow>
          (let (c, modelSet) = acc;
               eventTs = parseTimestamp date (getProp event ''timestamp'');
               c = c\<lparr>firstMessageAt := keepEarliest (firstMessageAt c) eventTs\<rparr>;
               c = c\<lparr>lastMessageAt := keepLatest (lastMessageAt c) eventTs\<rparr>;
               eventType = getProp event ''type'';
               payload = getProp event ''payload''
           in if eventType = Some (JStr ''session_meta'') then
                (if truthy payload then
                   (let c = c\<lparr>sessionId := firstSeen (sessionId c) (getProp (the payload) ''id'')\<rparr>;
                        c = c\<lparr>cwd := firstSeen (cwd c) (getProp (the payload) ''cwd'')\<rparr>;
                        c = c\<lparr>cliVersion := firstSeen (cliVersion c) (getProp (the payload) ''cli_version'')\<rparr>;
                        git = getProp (the payload) ''git'';
                        c = c\<lparr>gitBranch := firstSeen (gitBranch c) (guardedProp git ''branch'')\<rparr>
                    in (c, modelSet))
                 else (c, modelSet))
              else if eventType = Some (JStr ''turn_context'') then
                (if truthy payload then
                   (let c = c\<lparr>cwd := firstSeen (cwd c) (getProp (the payload) ''cwd'')\<rparr>;
                        modelSet = (case asString (getProp (the payload) ''model'') of
                                      Some model \<Rightarrow> setAdd modelSet model
                                    | None \<Rightarrow> modelSet)
                    in (c, modelSet))
                 else (c, modelSet))
              else if eventType = Some (JStr ''response_item'') then
                (if \<not> truthy payload \<or> getProp (the payload) ''type'' \<noteq> Some (JStr ''message'')
                    \<or> getProp (the payload) ''role'' \<noteq> Some (JStr ''user'')
                 then (c, modelSet)
                 else if \<not> truthyStr (firstUserMessage c)
                   then (c\<lparr>firstUserMessage := parseUserContent payload\<rparr>, modelSet)
                 else (c, modelSet))
              else if eventType = Some (JStr ''event_msg'') then
                (if \<not> truthy payload then (c, modelSet)
                 else if \<not> truthyStr (firstUserMessage c)
                      \<and> getProp (the payload) ''type'' = Some (JStr ''user_message'')
                      \<and> asString (getProp (the payload) ''message'') \<noteq> None
                   then (c\<lparr>firstUserMessage :=
                            truncateText (asString (getProp (the payload) ''message'')) 100\<rparr>, modelSet)
                 else (c, modelSet))
              else (c, modelSet)))"

definition extractConversationFromCodexLines ::
  "(string \<Rightarrow> json option) \<Rightarrow> (string \<Rightarrow> int option) \<Rightarrow> string list \<Rightarrow> string \<Rightarrow> DiscoveredConversation" where
  "extractConversationFromCodexLines parse date lines file =
     (let (c, modelSet) = foldl (codexLine parse date)
                            (blankConversation codex file (length lines), []) lines
      in c\<lparr>modelNames := joinModels modelSet\<rparr>)"

section \<open>Transcript scanner\<close>

text \<open>
  What \<open>statSync\<close> and \<open>readdirSync\<close> show of the tree under a root: a directory with its
  entries in listing order, a directory whose listing throws, an entry that is not a
  directory, and an entry on which \<open>statSync\<close> throws.
\<close>

datatype fsnode =
    Directory "(string \<times> fsnode) list"
  | UnreadableDirectory
  | RegularFile
  | StatFails

fun nodeCount :: "fsnode \<Rightarrow> nat" where
  "nodeCount (Directory items) = Suc (sum_list (map (\<lambda>entry. nodeCount (snd entry)) items))"
| "nodeCount UnreadableDirectory = 1"
| "nodeCount RegularFile = 1"
| "nodeCount StatFails = 1"

definition isDirectory :: "fsnode \<Rightarrow> bool" where
  "isDirectory node = (case node of Directory _ \<Rightarrow> True | UnreadableDirectory \<Rightarrow> True | _ \<Rightarrow> False)"

text \<open>
  One pass of the inner \<open>for\<close> loop. The work-list is a JavaScript array used as a stack:
  \<open>push\<close> appends, \<open>pop\<close> takes the last element.
\<close>

definition visitItem ::
  "string \<Rightarrow> (string \<times> fsnode) list \<times> string list \<Rightarrow> string \<times> fsnode \<Rightarrow>
   (string \<times> fsnode) list \<times> string list" where
  "visitItem current acc entry =
     (let (stack, files) = acc;
          (item, node) = entry;
          fullPath = path_join [current, item]
      in if node = StatFails then (stack, files)
         else if isDirectory node then (stack @ [(fullPath, node)], files)
         else if endsWith item ''.jsonl'' then (stack, files @ [fullPath])
         else (stack, files))"

definition stackCount :: "(string \<times> fsnode) list \<Rightarrow> nat" where
  "stackCount stack = sum_list (map (\<lambda>entry. nodeCount (snd entry)) stack)"

function walkStack :: "(string \<times> fsnode) list \<Rightarrow> string list \<Rightarrow> string list" where
  "walkStack stack files =
     (if stack = [] then files
      else
        (case snd (last stack) of
           Directory items \<Rightarrow>
             (let acc = foldl (visitItem (fst (last stack))) (butlast stack, files) items
              in walkStack (fst acc) (snd acc))
         | _ \<Rightarrow> walkStack (butlast stack) files))"
  by pat_completeness auto
termination
proof (relation "measure (\<lambda>(stack, files). stackCount stack)")
  have pos: "0 < nodeCount node" for node
    by (cases node) simp_all
  have visit: "stackCount (fst (foldl (visitItem current) (stack, files) items))
       \<le> stackCount stack + sum_list (map (\<lambda>entry. nodeCount (snd entry)) items)"
    for current stack files items
  proof (induction items arbitrary: stack files)
    case Nil
    then show ?case by simp
  next
    case (Cons entry items)
    obtain stack' files' where v: "visitItem current (stack, files) entry = (stack', files')"
      by (cases "visitItem current (stack, files) entry")
    then have "stackCount stack' \<le> stackCount stack + nodeCount (snd entry)"
      by (auto simp: visitItem_def stackCount_def Let_def split: if_splits prod.splits)
    with Cons.IH [of stack' files'] show ?case by (simp add: v)
  qed
  have pop: "stackCount stack = stackCount (butlast stack) + nodeCount (snd (last stack))"
    if "stack \<noteq> []" for stack
  proof -
    have "stackCount (butlast stack @ [last stack])
        = stackCount (butlast stack) + nodeCount (snd (last stack))"
      unfolding stackCount_def by simp
    with that show ?thesis by simp
  qed
  {
    show "wf (measure (\<lambda>(stack, files). stackCount stack))" by simp
  next
    fix stack :: "(string \<times> fsnode) list" and files :: "string list" and items acc
    assume ne: "stack \<noteq> []" and d: "snd (last stack) = Directory items"
      and acc: "acc = foldl (visitItem (fst (last stack))) (butlast stack, files) items"
    have "stackCount (fst acc)
        \<le> stackCount (butlast stack) + sum_list (map (\<lambda>entry. nodeCount (snd entry)) items)"
      unfolding acc by (rule visit)
    with pop [OF ne] d
    show "((fst acc, snd acc), (stack, files)) \<in> measure (\<lambda>(stack, files). stackCount stack)"
      by (simp add: case_prod_beta)
  next
    fix stack :: "(string \<times> fsnode) list" and files :: "string list"
    assume ne: "stack \<noteq> []"
    show "((butlast stack, files), (stack, files)) \<in> measure (\<lambda>(stack, files). stackCount stack)"
      using pop [OF ne] pos [of "snd (last stack)"] by simp
  next
    fix stack :: "(string \<times> fsnode) list" and files :: "string list"
    assume ne: "stack \<noteq> []"
    show "((butlast stack, files), (stack, files)) \<in> measure (\<lambda>(stack, files). stackCount stack)"
      using pop [OF ne] pos [of "snd (last stack)"] by simp
  next
    fix stack :: "(string \<times> fsnode) list" and files :: "string list"
    assume ne: "stack \<noteq> []"
    show "((butlast stack, files), (stack, files)) \<in> measure (\<lambda>(stack, files). stackCount stack)"
      using pop [OF ne] pos [of "snd (last stack)"] by simp
  }
qed

text \<open>
  The environment of one invocation: the runtime's parsers, the home directory, the
  file system (the tree under a root directory, \<open>None\<close> when \<open>existsSync\<close> is false, and
  the contents \<open>readFileSync\<close> returns, \<open>None\<close> when it throws), the agent registry and
  the answer of the live session inventory.
\<close>

record RegistrySession =
  rs_workingDirectory :: "string option"

record RegistryPreferences =
  defaultWorkingDirectory :: "string option"

record RegistryAgent =
  ra_workingDirectory :: "string option"
  ra_sessions :: "RegistrySession list option"
  ra_preferences :: "RegistryPreferences option"

record LiveSession =
  ls_id :: string
  ls_name :: string
  ls_agentId :: string
  ls_workingDirectory :: "string option"
  ls_createdAt :: string
  ls_status :: string

text \<open>
  The inventory either cannot be obtained (\<open>getSelfHost\<close>, \<open>fetch\<close> or \<open>response.json\<close>
  throws, or the body is \<open>null\<close>), answers with a non-success status, or lists sessions
  (\<open>sessionsData.sessions || []\<close>); a \<open>None\<close> entry is a \<open>null\<close> element of the list, on which
  the first property read throws.
\<close>

datatype LiveResponse =
    Unreachable
  | NotOk
  | Listing "LiveSession option list"

record Env =
  JSON_parse :: "string \<Rightarrow> json option"
  Date_parse :: "string \<Rightarrow> int option"
  homedir :: string
  treeAt :: "string \<Rightarrow> fsnode option"
  readFileSync :: "string \<Rightarrow> string option"
  getAgent :: "string \<Rightarrow> RegistryAgent option"
  getAgentBySession :: "string \<Rightarrow> RegistryAgent option"
  liveSessions :: LiveResponse

definition findJsonlFiles :: "Env \<Rightarrow> string \<Rightarrow> string list" where
  "findJsonlFiles env rootDir =
     (case treeAt env rootDir of
        None \<Rightarrow> []
      | Some root \<Rightarrow> walkStack [(rootDir, root)] [])"

definition nonBlankLines :: "string \<Rightarrow> string list" where
  "nonBlankLines raw = filter (\<lambda>line. length (trim line) > 0) (split_on CHR 0x0A raw)"

fun discoverConversationsFromFiles ::
  "Env \<Rightarrow> string list \<Rightarrow> ConversationSource \<Rightarrow> DiscoveredConversation list" where
  "discoverConversationsFromFiles env [] src = []"
| "discoverConversationsFromFiles env (file # files) src =
     (case readFileSync env file of
        None \<Rightarrow> discoverConversationsFromFiles env files src
      | Some raw \<Rightarrow>
          (let lines = nonBlankLines raw
           in if length lines = 0 then discoverConversationsFromFiles env files src
              else
                (if src = claude
                 then extractConversationFromClaudeLines (JSON_parse env) (Date_parse env) lines file
                 else extractConversationFromCodexLines (JSON_parse env) (Date_parse env) lines file)
                # discoverConversationsFromFiles env files src))"

definition discoverConversations :: "Env \<Rightarrow> ConversationSource list \<Rightarrow> DiscoveredConversation list" where
  "discoverConversations env srcs =
     (let home = homedir env;
          fromClaude =
            (if claude \<in> set srcs
             then discoverConversationsFromFiles env
                    (findJsonlFiles env (path_join [home, ''.claude'', ''projects''])) claude
             else []);
          fromCodex =
            (if codex \<in> set srcs
             then discoverConversationsFromFiles env
                    (findJsonlFiles env (path_join [home, ''.codex'', ''sessions''])) codex
             else [])
      in fromClaude @ fromCodex)"

section \<open>The store interface\<close>

text \<open>
  The per-agent store is an external collaborator. The engine is parametric in it: a
  store is a database value \<open>'db\<close> with two queries and three recording functions, each
  of which may throw (\<open>Inl\<close>). A query answers with its rows (\<open>rows || []\<close>); of a
  conversation row only the first column, the transcript path, is read, and it may be
  absent.
\<close>

datatype error = StoreError string

record SessionRecord =
  session_id :: string
  session_name :: string
  sr_agent_id :: string
  working_directory :: "string option"
  started_at :: "int option"
  status :: string

record ProjectRecord =
  project_path :: string
  project_name :: string
  claude_dir :: string

record ConversationRecord =
  jsonl_file :: string
  cr_project_path :: string
  cr_session_id :: string
  message_count :: nat
  first_message_at :: "int option"
  last_message_at :: "int option"
  first_user_message :: "string option"
  model_names :: "string option"
  git_branch :: "string option"
  claude_version :: "string option"

record 'db Store =
  getProjects :: "'db \<Rightarrow> error + string list"
  getConversations :: "'db \<Rightarrow> string \<Rightarrow> error + string option list"
  recordSession :: "'db \<Rightarrow> SessionRecord \<Rightarrow> error + 'db"
  recordProject :: "'db \<Rightarrow> ProjectRecord \<Rightarrow> error + 'db"
  recordConversation :: "'db \<Rightarrow> ConversationRecord \<Rightarrow> error + 'db"

text \<open>
  The effect of an invocation on the store is the database it leaves behind together
  with the log of the recording calls it made, each with the error it threw, if any.
\<close>

datatype StoreWrite =
    RecordSession SessionRecord
  | RecordProject ProjectRecord
  | RecordConversation ConversationRecord

record 'db StoreState =
  db :: 'db
  calls :: "(StoreWrite \<times> error option) list"

definition applyWrite :: "'db Store \<Rightarrow> 'db \<Rightarrow> StoreWrite \<Rightarrow> error + 'db" where
  "applyWrite store d w =
     (case w of
        RecordSession s \<Rightarrow> recordSession store d s
      | RecordProject p \<Rightarrow> recordProject store d p
      | RecordConversation c \<Rightarrow> recordConversation store d c)"

definition performWrite :: "'db Store \<Rightarrow> StoreWrite \<Rightarrow> 'db StoreState \<Rightarrow> error option \<times> 'db StoreState" where
  "performWrite store w st =
     (case applyWrite store (db st) w of
        Inl e \<Rightarrow> (Some e, st\<lparr>calls := calls st @ [(w, Some e)]\<rparr>)
      | Inr d \<Rightarrow> (None, \<lparr>db = d, calls = calls st @ [(w, None)]\<rparr>))"

section \<open>Working-directory resolver\<close>

definition orElse :: "string option \<Rightarrow> string option \<Rightarrow> string option" where
  "orElse a b = (if truthyStr a then a else b)"

definition registryDirectories :: "Env \<Rightarrow> string \<Rightarrow> string list" where
  "registryDirectories env agentId =
     (case (case getAgent env agentId of Some a \<Rightarrow> Some a | None \<Rightarrow> getAgentBySession env agentId) of
        None \<Rightarrow> []
      | Some registryAgent \<Rightarrow>
          (let firstSessionWd =
                 (case ra_sessions registryAgent of
                    Some (s # _) \<Rightarrow> rs_workingDirectory s
                  | _ \<Rightarrow> None);
               baseWd = orElse (ra_workingDirectory registryAgent) firstSessionWd;
               prefWd = (case ra_preferences registryAgent of
                           Some prefs \<Rightarrow> defaultWorkingDirectory prefs
                         | None \<Rightarrow> None);
               wds = (if truthyStr baseWd then setAdd [] (normalizePathForMatch (the baseWd)) else []);
               wds = (if truthyStr prefWd then setAdd wds (normalizePathForMatch (the prefWd)) else wds)
           in wds))"

definition sessionRecordOf :: "Env \<Rightarrow> string \<Rightarrow> LiveSession \<Rightarrow> SessionRecord" where
  "sessionRecordOf env agentId session =
     \<lparr> session_id = ls_id session,
       session_name = ls_name session,
       sr_agent_id = agentId,
       working_directory = ls_workingDirectory session,
       started_at = Date_parse env (ls_createdAt session),
       status = ls_status session \<rparr>"

text \<open>
  The loop over the listed sessions runs inside the \<open>try\<close> block: a \<open>null\<close> entry or a
  throwing \<open>recordSession\<close> ends the loop, and the function returns what it has
  accumulated so far. \<open>noteSession\<close> is the bookkeeping for one session of the agent,
  done before the session is recorded.
\<close>

definition noteSession :: "SessionDiscoveryResult \<Rightarrow> LiveSession \<Rightarrow> SessionDiscoveryResult" where
  "noteSession acc session =
     (let acc = acc\<lparr>activeSessionsSeen := activeSessionsSeen acc + 1\<rparr>
      in if truthyStr (ls_workingDirectory session)
         then acc\<lparr>workingDirectories :=
                setAdd (workingDirectories acc)
                  (normalizePathForMatch (the (ls_workingDirectory session)))\<rparr>
         else acc)"

fun sessionLoop ::
  "Env \<Rightarrow> 'db Store \<Rightarrow> string \<Rightarrow> bool \<Rightarrow> LiveSession option list \<Rightarrow>
   SessionDiscoveryResult \<Rightarrow> 'db StoreState \<Rightarrow> SessionDiscoveryResult \<times> 'db StoreState" where
  "sessionLoop env store agentId applyWrites [] acc st = (acc, st)"
| "sessionLoop env store agentId applyWrites (None # rest) acc st = (acc, st)"
| "sessionLoop env store agentId applyWrites (Some session # rest) acc st =
     (if ls_agentId session \<noteq> agentId then sessionLoop env store agentId applyWrites rest acc st
      else if applyWrites then
        (case performWrite store (RecordSession (sessionRecordOf env agentId session)) st of
           (Some e, st') \<Rightarrow> (noteSession acc session, st')
         | (None, st') \<Rightarrow> sessionLoop env store agentId applyWrites rest (noteSession acc session) st')
      else sessionLoop env store agentId applyWrites rest (noteSession acc session) st)"

definition fetchWorkingDirectoriesForAgent ::
  "Env \<Rightarrow> 'db Store \<Rightarrow> string \<Rightarrow> bool \<Rightarrow> 'db StoreState \<Rightarrow> SessionDiscoveryResult \<times> 'db StoreState" where
  "fetchWorkingDirectoriesForAgent env store agentId applyWrites st =
     (let acc = \<lparr> activeSessionsSeen = 0, workingDirectories = registryDirectories env agentId \<rparr>
      in case liveSessions env of
           Unreachable \<Rightarrow> (acc, st)
         | NotOk \<Rightarrow> (acc, st)
         | Listing sessions \<Rightarrow> sessionLoop env store agentId applyWrites sessions acc st)"

section \<open>Existing transcripts\<close>

text \<open>\<open>if (row[0]) existingFiles.add(row[0])\<close>\<close>

definition addRow :: "string list \<Rightarrow> string option \<Rightarrow> string list" where
  "addRow files row = (if truthyStr row then setAdd files (the row) else files)"

fun conversationFilesOf ::
  "'db Store \<Rightarrow> 'db \<Rightarrow> string list \<Rightarrow> string list \<Rightarrow> error + string list" where
  "conversationFilesOf store d [] existingFiles = Inr existingFiles"
| "conversationFilesOf store d (projectPath # projects) existingFiles =
     (case getConversations store d projectPath of
        Inl e \<Rightarrow> Inl e
      | Inr rows \<Rightarrow>
          conversationFilesOf store d projects (foldl addRow existingFiles rows))"

definition getExistingConversationFiles :: "'db Store \<Rightarrow> 'db \<Rightarrow> error + string list" where
  "getExistingConversationFiles store d =
     (case getProjects store d of
        Inl e \<Rightarrow> Inl e
      | Inr projects \<Rightarrow> conversationFilesOf store d projects [])"

section \<open>Match and dedup engine\<close>

definition emptySourceStats :: SourceStats where
  "emptySourceStats = \<lparr> discovered = 0, matched = 0, unmapped = 0, existing = 0, inserted = 0 \<rparr>"

definition emptyReport :: "string \<Rightarrow> bool \<Rightarrow> nat \<Rightarrow> BackfillReport" where
  "emptyReport agentId isDryRun maxFilesApplied =
     \<lparr> success = True,
       agent_id = agentId,
       mode = (if isDryRun then DryRun else Apply),
       sources = (\<lambda>src. emptySourceStats),
       total_discovered = 0,
       total_matched = 0,
       total_unmapped = 0,
       total_existing = 0,
       total_inserted = 0,
       max_files_applied = maxFilesApplied,
       truncated = False,
       working_directories = [],
       active_sessions_seen = 0,
       unmapped_examples = [],
       existing_examples = [],
       inserted_examples = [] \<rparr>"

definition pushExample :: "string list \<Rightarrow> string \<Rightarrow> string list" where
  "pushExample target v = (if length target \<ge> MAX_EXAMPLES then target else target @ [v])"

definition bump ::
  "(SourceStats \<Rightarrow> SourceStats) \<Rightarrow> ConversationSource \<Rightarrow> BackfillReport \<Rightarrow> BackfillReport" where
  "bump f src report = report\<lparr>sources := (sources report)(src := f (sources report src))\<rparr>"

definition countDiscovered :: "BackfillReport \<Rightarrow> DiscoveredConversation \<Rightarrow> BackfillReport" where
  "countDiscovered report item = bump (\<lambda>s. s\<lparr>discovered := discovered s + 1\<rparr>) (source item) report"

definition normalizedCwdOf :: "DiscoveredConversation \<Rightarrow> string option" where
  "normalizedCwdOf item = (if truthyStr (cwd item) then Some (normalizePathForMatch (the (cwd item))) else None)"

text \<open>The first loop: classification into unmapped and matched.\<close>

fun matchLoop ::
  "string list \<Rightarrow> DiscoveredConversation list \<Rightarrow> BackfillReport \<times> DiscoveredConversation list \<Rightarrow>
   BackfillReport \<times> DiscoveredConversation list" where
  "matchLoop workingDirectorySet [] acc = acc"
| "matchLoop workingDirectorySet (item # items) (report, matchedItems) =
     (let normalizedCwd = normalizedCwdOf item
      in if \<not> truthyStr normalizedCwd \<or> the normalizedCwd \<notin> set workingDirectorySet then
           matchLoop workingDirectorySet items
             (let report = bump (\<lambda>s. s\<lparr>unmapped := unmapped s + 1\<rparr>) (source item) report;
                  report = report\<lparr>total_unmapped := total_unmapped report + 1\<rparr>;
                  report = report\<lparr>unmapped_examples := pushExample (unmapped_examples report) (jsonlFile item)\<rparr>
              in (report, matchedItems))
         else
           matchLoop workingDirectorySet items
             (let report = bump (\<lambda>s. s\<lparr>matched := matched s + 1\<rparr>) (source item) report;
                  report = report\<lparr>total_matched := total_matched report + 1\<rparr>
              in (report, matchedItems @ [item\<lparr>cwd := normalizedCwd\<rparr>])))"

definition orUndefined :: "int option \<Rightarrow> int option" where
  "orUndefined v = (case v of Some n \<Rightarrow> (if n = 0 then None else Some n) | None \<Rightarrow> None)"

definition orUndefinedStr :: "string option \<Rightarrow> string option" where
  "orUndefinedStr v = (if truthyStr v then v else None)"

definition projectRecordOf :: "DiscoveredConversation \<Rightarrow> ProjectRecord" where
  "projectRecordOf item =
     \<lparr> project_path = the (cwd item),
       project_name = (let b = path_basename (the (cwd item)) in if b = [] then ''unknown'' else b),
       claude_dir = path_dirname (jsonlFile item) \<rparr>"

definition conversationRecordOf :: "DiscoveredConversation \<Rightarrow> ConversationRecord" where
  "conversationRecordOf item =
     \<lparr> jsonl_file = jsonlFile item,
       cr_project_path = the (cwd item),
       cr_session_id = (if truthyStr (sessionId item) then the (sessionId item) else ''unknown''),
       message_count = messageCount item,
       first_message_at = orUndefined (firstMessageAt item),
       last_message_at = orUndefined (lastMessageAt item),
       first_user_message = orUndefinedStr (firstUserMessage item),
       model_names = orUndefinedStr (modelNames item),
       git_branch = orUndefinedStr (gitBranch item),
       claude_version = orUndefinedStr (cliVersion item) \<rparr>"

definition countInserted :: "BackfillReport \<Rightarrow> DiscoveredConversation \<Rightarrow> BackfillReport" where
  "countInserted report item =
     (let report = bump (\<lambda>s. s\<lparr>inserted := inserted s + 1\<rparr>) (source item) report;
          report = report\<lparr>total_inserted := total_inserted report + 1\<rparr>
      in report\<lparr>inserted_examples := pushExample (inserted_examples report) (jsonlFile item)\<rparr>)"

definition countExisting :: "BackfillReport \<Rightarrow> DiscoveredConversation \<Rightarrow> BackfillReport" where
  "countExisting report item =
     (let report = bump (\<lambda>s. s\<lparr>existing := existing s + 1\<rparr>) (source item) report;
          report = report\<lparr>total_existing := total_existing report + 1\<rparr>
      in report\<lparr>existing_examples := pushExample (existing_examples report) (jsonlFile item)\<rparr>)"

text \<open>
  The second loop: existing or inserted. A throwing \<open>recordProject\<close> or
  \<open>recordConversation\<close> is not caught: it ends the invocation with that error.
\<close>

fun insertLoop ::
  "'db Store \<Rightarrow> bool \<Rightarrow> string list \<Rightarrow> DiscoveredConversation list \<Rightarrow> BackfillReport \<Rightarrow>
   'db StoreState \<Rightarrow> (error + BackfillReport) \<times> 'db StoreState" where
  "insertLoop store isDryRun existingFiles [] report st = (Inr report, st)"
| "insertLoop store isDryRun existingFiles (item # items) report st =
     (if jsonlFile item \<in> set existingFiles then
        insertLoop store isDryRun existingFiles items (countExisting report item) st
      else if \<not> isDryRun \<and> truthyStr (cwd item) then
        (case performWrite store (RecordProject (projectRecordOf item)) st of
           (Some e, st') \<Rightarrow> (Inl e, st')
         | (None, st') \<Rightarrow>
             (case performWrite store (RecordConversation (conversationRecordOf item)) st' of
                (Some e, st'') \<Rightarrow> (Inl e, st'')
              | (None, st'') \<Rightarrow>
                  insertLoop store isDryRun existingFiles items (countInserted report item) st''))
      else insertLoop store isDryRun existingFiles items (countInserted report item) st)"

definition requestedSources :: "BackfillRequest \<Rightarrow> ConversationSource list" where
  "requestedSources request =
     (case req_sources request of
        Some srcs \<Rightarrow> (if length srcs > 0 then srcs else [claude, codex])
      | None \<Rightarrow> [claude, codex])"

definition requestedMaxFiles :: "BackfillRequest \<Rightarrow> nat" where
  "requestedMaxFiles request =
     (case maxFiles request of
        Some n \<Rightarrow> (if n > 0 then nat n else 5000)
      | None \<Rightarrow> 5000)"

definition backfillAgentMemory ::
  "Env \<Rightarrow> 'db Store \<Rightarrow> string \<Rightarrow> BackfillRequest \<Rightarrow> 'db StoreState \<Rightarrow>
   (error + BackfillReport) \<times> 'db StoreState" where
  "backfillAgentMemory env store agentId request st =
     (let srcs = requestedSources request;
          isDryRun = (dryRun request = Some True);
          maxFilesApplied = requestedMaxFiles request;
          report = emptyReport agentId isDryRun maxFilesApplied;
          (found, st) = fetchWorkingDirectoriesForAgent env store agentId (\<not> isDryRun) st;
          report = report\<lparr>active_sessions_seen := activeSessionsSeen found\<rparr>;
          report = report\<lparr>working_directories := workingDirectories found\<rparr>;
          discoveredAll = discoverConversations env srcs;
          report = foldl countDiscovered report discoveredAll;
          report = report\<lparr>total_discovered := length discoveredAll\<rparr>;
          report = (if length discoveredAll > maxFilesApplied then report\<lparr>truncated := True\<rparr> else report);
          discoveredItems = (if length discoveredAll > maxFilesApplied
                             then take maxFilesApplied discoveredAll else discoveredAll);
          (report, matchedItems) = matchLoop (working_directories report) discoveredItems (report, [])
      in case getExistingConversationFiles store (db st) of
           Inl e \<Rightarrow> (Inl e, st)
         | Inr existingFiles \<Rightarrow> insertLoop store isDryRun existingFiles matchedItems report st)"

section \<open>The backfill route's request\<close>

text \<open>
  The route builds the engine's request from the body it received:
  \<open>dryRun: body.dryRun !== false\<close>, \<open>force: body.force === true\<close>, the other two
  fields passed on. The body has the request's shape.
\<close>

definition routeRequest :: "BackfillRequest \<Rightarrow> BackfillRequest" where
  "routeRequest body =
     \<lparr> req_sources = req_sources body,
       dryRun = Some (dryRun body \<noteq> Some False),
       maxFiles = maxFiles body,
       force = Some (force body = Some True) \<rparr>"

section \<open>A store with upsert-by-key recording\<close>

text \<open>
  Modelled from the spec: the store's own functions (\<open>getProjects\<close>, \<open>getConversations\<close>,
  \<open>recordSession\<close>, \<open>recordProject\<close>, \<open>recordConversation\<close>) are not among the sources.
  The specification describes each recording function as an idempotent upsert keyed by
  session id, project path and transcript path respectively, and the lookup as listing
  all known projects, then all conversations under each. No operation of this store
  throws.
\<close>

record KeyedDb =
  sessions_tbl :: "(string \<times> SessionRecord) list"
  projects_tbl :: "(string \<times> ProjectRecord) list"
  conversations_tbl :: "(string \<times> ConversationRecord) list"

fun upsert :: "'k \<Rightarrow> 'v \<Rightarrow> ('k \<times> 'v) list \<Rightarrow> ('k \<times> 'v) list" where
  "upsert k v [] = [(k, v)]"
| "upsert k v ((k', v') # rest) = (if k' = k then (k, v) # rest else (k', v') # upsert k v rest)"

definition keyedStore :: "KeyedDb Store" where
  "keyedStore =
     \<lparr> getProjects = (\<lambda>d. Inr (map fst (projects_tbl d))),
       getConversations = (\<lambda>d projectPath.
          Inr (map (\<lambda>row. Some (fst row))
                (filter (\<lambda>row. cr_project_path (snd row) = projectPath) (conversations_tbl d)))),
       recordSession = (\<lambda>d s. Inr (d\<lparr>sessions_tbl := upsert (session_id s) s (sessions_tbl d)\<rparr>)),
       recordProject = (\<lambda>d p. Inr (d\<lparr>projects_tbl := upsert (project_path p) p (projects_tbl d)\<rparr>)),
       recordConversation = (\<lambda>d c.
          Inr (d\<lparr>conversations_tbl := upsert (jsonl_file c) c (conversations_tbl d)\<rparr>)) \<rparr>"

section \<open>Notions used to state the properties\<close>

text \<open>The items that reach classification: the discovered list cut to the cap.\<close>

definition classifiedItems :: "Env \<Rightarrow> BackfillRequest \<Rightarrow> DiscoveredConversation list" where
  "classifiedItems env request =
     take (requestedMaxFiles request) (discoverConversations env (requestedSources request))"

text \<open>A conversation is matched when its normalised working directory is one of the agent's.\<close>

definition isMatched :: "string list \<Rightarrow> DiscoveredConversation \<Rightarrow> bool" where
  "isMatched wds item =
     (truthyStr (normalizedCwdOf item) \<and> the (normalizedCwdOf item) \<in> set wds)"

text \<open>
  The transcript paths already in a store, read off its two queries: the non-empty first
  columns of the conversation rows listed under a project that the project query lists.
\<close>

definition storedTranscripts :: "'db Store \<Rightarrow> 'db \<Rightarrow> string set" where
  "storedTranscripts store d =
     {f. f \<noteq> [] \<and>
         (\<exists>projects projectPath rows.
            getProjects store d = Inr projects \<and> projectPath \<in> set projects \<and>
            getConversations store d projectPath = Inr rows \<and> Some f \<in> set rows)}"

text \<open>The matched conversations whose transcript path is not among the stored ones.\<close>

definition newTranscripts ::
  "Env \<Rightarrow> BackfillRequest \<Rightarrow> string list \<Rightarrow> string set \<Rightarrow> DiscoveredConversation list" where
  "newTranscripts env request wds stored =
     filter (\<lambda>item. jsonlFile item \<notin> stored)
       (filter (isMatched wds) (classifiedItems env request))"

text \<open>No call of a list of logged calls threw.\<close>

definition noneThrew :: "(StoreWrite \<times> error option) list \<Rightarrow> bool" where
  "noneThrew log = list_all (\<lambda>c. snd c = None) log"

definition ofSource :: "ConversationSource \<Rightarrow> DiscoveredConversation list \<Rightarrow> DiscoveredConversation list" where
  "ofSource src items = filter (\<lambda>item. source item = src) items"

text \<open>The report as it stands when classification starts.\<close>

definition reportBeforeMatching ::
  "Env \<Rightarrow> string \<Rightarrow> BackfillRequest \<Rightarrow> SessionDiscoveryResult \<Rightarrow> BackfillReport" where
  "reportBeforeMatching env agentId request found =
     (let discoveredAll = discoverConversations env (requestedSources request);
          report = emptyReport agentId (dryRun request = Some True) (requestedMaxFiles request);
          report = report\<lparr>active_sessions_seen := activeSessionsSeen found,
                          working_directories := workingDirectories found\<rparr>;
          report = foldl countDiscovered report discoveredAll;
          report = report\<lparr>total_discovered := length discoveredAll\<rparr>
      in if length discoveredAll > requestedMaxFiles request then report\<lparr>truncated := True\<rparr> else report)"

text \<open>The counting of the second loop alone, without its writes.\<close>

definition tally :: "string list \<Rightarrow> BackfillReport \<Rightarrow> DiscoveredConversation list \<Rightarrow> BackfillReport" where
  "tally existingFiles report items =
     foldl (\<lambda>r item. if jsonlFile item \<in> set existingFiles then countExisting r item
                       else countInserted r item) report items"

definition withNormalizedCwd :: "DiscoveredConversation \<Rightarrow> DiscoveredConversation" where
  "withNormalizedCwd item = item\<lparr>cwd := normalizedCwdOf item\<rparr>"

text \<open>The recording calls an invocation added to the log.\<close>

definition newCalls :: "'db StoreState \<Rightarrow> 'db StoreState \<Rightarrow> (StoreWrite \<times> error option) list" where
  "newCalls before after = drop (length (calls before)) (calls after)"

text \<open>What the resolver found for an invocation.\<close>

definition resolverResult ::
  "Env \<Rightarrow> 'db Store \<Rightarrow> string \<Rightarrow> BackfillRequest \<Rightarrow> 'db StoreState \<Rightarrow> SessionDiscoveryResult" where
  "resolverResult env store agentId request st =
     fst (fetchWorkingDirectoriesForAgent env store agentId (dryRun request \<noteq> Some True) st)"

definition isSessionWrite :: "StoreWrite \<Rightarrow> bool" where
  "isSessionWrite w = (case w of RecordSession _ \<Rightarrow> True | _ \<Rightarrow> False)"

text \<open>The state of the store after the resolver has run, where the existing files are looked up.\<close>

definition lookupState :: "Env \<Rightarrow> 'db Store \<Rightarrow> string \<Rightarrow> BackfillRequest \<Rightarrow> 'db StoreState \<Rightarrow> 'db StoreState" where
  "lookupState env store agentId request st =
     snd (fetchWorkingDirectoriesForAgent env store agentId (dryRun request \<noteq> Some True) st)"




text \<open>The timestamp a transcript line carries, if it decodes to a value that has one.\<close>

definition lineTimestamp ::
  "(string \<Rightarrow> json option) \<Rightarrow> (string \<Rightarrow> int option) \<Rightarrow> string \<Rightarrow> int option" where
  "lineTimestamp parse date line =
     (case parse line of
        None \<Rightarrow> None
      | Some JNull \<Rightarrow> None
      | Some message \<Rightarrow> parseTimestamp date (getProp message ''timestamp''))"

text \<open>The timestamps of a transcript's lines, in file order.\<close>

definition lineTimestamps ::
  "(string \<Rightarrow> json option) \<Rightarrow> (string \<Rightarrow> int option) \<Rightarrow> string list \<Rightarrow> int list" where
  "lineTimestamps parse date lines = List.map_filter (lineTimestamp parse date) lines"

text \<open>
  The lines of a file that are not the empty string, and those that hold a character
  other than white space.
\<close>

definition nonEmptyLines :: "string \<Rightarrow> string list" where
  "nonEmptyLines raw = filter (\<lambda>line. line \<noteq> []) (split_on CHR 0x0A raw)"

definition hasVisibleChar :: "string \<Rightarrow> bool" where
  "hasVisibleChar line = list_ex (\<lambda>ch. \<not> isWhiteSpace ch) line"

definition visibleLines :: "string \<Rightarrow> string list" where
  "visibleLines raw = filter hasVisibleChar (split_on CHR 0x0A raw)"

text \<open>The environment in which reading one file throws.\<close>

definition withUnreadable :: "Env \<Rightarrow> string \<Rightarrow> Env" where
  "withUnreadable env f = env\<lparr> readFileSync := (readFileSync env)(f := None) \<rparr>"

text \<open>
  The transcript paths the lookup finds in a keyed database: the non-empty keys of
  conversation rows filed under a known project.
\<close>

definition lookupSet :: "KeyedDb \<Rightarrow> string set" where
  "lookupSet d =
     {f. f \<noteq> [] \<and> (\<exists>c. (f, c) \<in> set (conversations_tbl d) \<and>
                              cr_project_path c \<in> fst ` set (projects_tbl d))}"

text \<open>Two optional timestamps are present together and in order.\<close>

definition tsInv :: "int option \<Rightarrow> int option \<Rightarrow> bool" where
  "tsInv a b = ((a = None \<longleftrightarrow> b = None) \<and> (\<forall>x y. a = Some x \<longrightarrow> b = Some y \<longrightarrow> x \<le> y))"

text \<open>The segments kept by \<open>normalizeString\<close> are non-empty and free of separators.\<close>

definition goodStack :: "string list \<Rightarrow> bool" where
  "goodStack st = (\<forall>s\<in>set st. s \<noteq> [] \<and> CHR ''/'' \<notin> set s)"

section \<open>A concrete installation\<close>

text \<open>
  One agent whose working directory is \<open>/home/u/p\<close>, one live session, and two transcripts
  under the first source's root: one with a single event, one holding only blank lines.
  The two parsers are given by their values on the lines and dates that occur.
\<close>

definition lineEarly :: string where
  \<open>lineEarly = ''{"timestamp":"1970-01-01T00:00:01.000Z"}''\<close>

definition lineLate :: string where
  \<open>lineLate = ''{"timestamp":"1970-01-01T00:00:02.000Z"}''\<close>

definition lineMeta :: string where
  \<open>lineMeta = ''{"sessionId":"s1","cwd":"/home/u/p","timestamp":"1970-01-01T00:00:01.000Z"}''\<close>

definition exampleParse :: "string \<Rightarrow> json option" where
  "exampleParse line =
     (if line = lineEarly then Some (JObj [(''timestamp'', JStr ''1970-01-01T00:00:01.000Z'')])
      else if line = lineLate then Some (JObj [(''timestamp'', JStr ''1970-01-01T00:00:02.000Z'')])
      else if line = lineMeta then
        Some (JObj [(''sessionId'', JStr ''s1''), (''cwd'', JStr ''/home/u/p''),
                    (''timestamp'', JStr ''1970-01-01T00:00:01.000Z'')])
      else None)"

definition exampleDate :: "string \<Rightarrow> int option" where
  "exampleDate raw =
     (if raw = ''1970-01-01T00:00:01.000Z'' then Some 1000
      else if raw = ''1970-01-01T00:00:02.000Z'' then Some 2000
      else None)"

definition exampleSession :: LiveSession where
  "exampleSession =
     \<lparr> ls_id = ''sess-1'', ls_name = ''main'', ls_agentId = ''agent-1'',
       ls_workingDirectory = Some ''/home/u/p/'', ls_createdAt = ''1970-01-01T00:00:01.000Z'',
       ls_status = ''active'' \<rparr>"

definition exampleEnv :: Env where
  "exampleEnv =
     \<lparr> JSON_parse = exampleParse,
       Date_parse = exampleDate,
       homedir = ''/home/u'',
       treeAt = (\<lambda>dir. if dir = ''/home/u/.claude/projects''
                        then Some (Directory [(''p'', Directory [(''a.jsonl'', RegularFile),
                                                                   (''blank.jsonl'', RegularFile)])])
                        else None),
       readFileSync = (\<lambda>file. if file = ''/home/u/.claude/projects/p/a.jsonl''
                                then Some (lineMeta @ [CHR 0x0A])
                              else if file = ''/home/u/.claude/projects/p/blank.jsonl''
                                then Some [CHR '' '', CHR 0x0A, CHR 0x09, CHR 0x0A]
                              else None),
       getAgent = (\<lambda>agentId. if agentId = ''agent-1''
                              then Some \<lparr> ra_workingDirectory = Some ''/home/u/p'',
                                          ra_sessions = None, ra_preferences = None \<rparr>
                              else None),
       getAgentBySession = (\<lambda>agentId. None),
       liveSessions = Listing [Some exampleSession] \<rparr>"

definition emptyState :: "KeyedDb StoreState" where
  "emptyState = \<lparr> db = \<lparr> sessions_tbl = [], projects_tbl = [], conversations_tbl = [] \<rparr>, calls = [] \<rparr>"

definition emptyRequest :: BackfillRequest where
  "emptyRequest = \<lparr> req_sources = None, dryRun = None, maxFiles = None, force = None \<rparr>"

text \<open>The same store, except that \<open>recordSession\<close> throws.\<close>

definition sessionlessStore :: "KeyedDb Store" where
  "sessionlessStore = keyedStore\<lparr> recordSession := (\<lambda>d s. Inl (StoreError ''recordSession failed'')) \<rparr>"



text \<open>
  A second installation: the agent has no configured directory; the inventory lists a
  session without a working directory and then the session above; the first source's
  root holds two transcripts, the second one with a line of a single space after its
  event.
\<close>

definition bareSession :: LiveSession where
  "bareSession =
     \<lparr> ls_id = ''sess-0'', ls_name = ''bare'', ls_agentId = ''agent-1'',
       ls_workingDirectory = None, ls_createdAt = ''1970-01-01T00:00:01.000Z'',
       ls_status = ''active'' \<rparr>"

definition secondEnv :: Env where
  "secondEnv =
     \<lparr> JSON_parse = exampleParse,
       Date_parse = exampleDate,
       homedir = ''/home/u'',
       treeAt = (\<lambda>dir. if dir = ''/home/u/.claude/projects''
                        then Some (Directory [(''a.jsonl'', RegularFile), (''b.jsonl'', RegularFile)])
                        else None),
       readFileSync = (\<lambda>file. if file = ''/home/u/.claude/projects/a.jsonl''
                                then Some (lineMeta @ [CHR 0x0A])
                              else if file = ''/home/u/.claude/projects/b.jsonl''
                                then Some (lineMeta @ [CHR 0x0A, CHR '' '', CHR 0x0A])
                              else None),
       getAgent = (\<lambda>agentId. None),
       getAgentBySession = (\<lambda>agentId. None),
       liveSessions = Listing [Some bareSession, Some exampleSession] \<rparr>"

text \<open>
  The map-backed store after an apply run over the second installation capped at one
  file: it holds the first of the two transcripts.
\<close>

definition seededState :: "KeyedDb StoreState" where
  "seededState =
     \<lparr> db = db (snd (backfillAgentMemory secondEnv keyedStore ''agent-1''
                       (emptyRequest\<lparr>maxFiles := Some 1\<rparr>) emptyState)),
       calls = [] \<rparr>"

section \<open>Properties of the path normaliser\<close>

lemma split_on_nonempty: "split_on c s \<noteq> []"
  by (induction s) (auto split: list.splits)

lemma split_on_snoc_sep: "split_on c (s @ [c]) = split_on c s @ [[]]"
  by (induction s) (auto split: list.splits simp: split_on_nonempty)

lemma split_on_snoc_other:
  "d \<noteq> c \<Longrightarrow> split_on c (s @ [d]) = butlast (split_on c s) @ [last (split_on c s) @ [d]]"
  by (induction s) (auto split: list.splits simp: split_on_nonempty)

lemma split_on_no_sep: "seg \<in> set (split_on c s) \<Longrightarrow> c \<notin> set seg"
  by (induction s arbitrary: seg) (auto split: list.splits if_splits)

lemma split_on_singleton: "split_on c s = [[]] \<Longrightarrow> s = []"
  by (cases s) (auto split: list.splits if_splits simp: split_on_nonempty)

lemma normalizeStep_push:
  "seg \<noteq> [] \<Longrightarrow> seg \<noteq> ''.'' \<Longrightarrow> seg \<noteq> ''..'' \<Longrightarrow> normalizeStep b st seg = seg # st"
  by (simp add: normalizeStep_def)

lemma last_split_on_empty: "(last (split_on c s) = []) = (s = [] \<or> last s = c)"
  by (induction s) (auto split: list.splits simp: split_on_nonempty dest: split_on_singleton)

lemma last_last_split_on: "s \<noteq> [] \<Longrightarrow> last s \<noteq> c \<Longrightarrow> last (last (split_on c s)) = last s"
  by (induction s) (auto split: list.splits simp: split_on_nonempty last_split_on_empty dest: split_on_singleton)

lemma join_with_snoc:
  "join_with sep (xs @ [y]) = (if xs = [] then y else join_with sep xs @ sep @ y)"
  by (induction sep xs rule: join_with.induct) auto

lemma goodStack_step:
  "goodStack st \<Longrightarrow> CHR ''/'' \<notin> set seg \<Longrightarrow> goodStack (normalizeStep b st seg)"
  by (auto simp: goodStack_def normalizeStep_def split: list.splits)

lemma goodStack_foldl:
  "goodStack st \<Longrightarrow> \<forall>seg\<in>set segs. CHR ''/'' \<notin> set seg \<Longrightarrow>
   goodStack (foldl (normalizeStep b) st segs)"
  by (induction segs arbitrary: st) (auto simp: goodStack_step)

lemma join_with_last:
  "xs \<noteq> [] \<Longrightarrow> last xs \<noteq> [] \<Longrightarrow>
   join_with sep xs \<noteq> [] \<and> last (join_with sep xs) = last (last xs)"
  by (induction sep xs rule: join_with.induct) auto

lemma join_with_empty: "join_with sep xs = [] \<Longrightarrow> xs = [] \<or> last xs = []"
  using join_with_last by blast

lemma normalizeString_last:
  assumes "normalizeString p b \<noteq> []"
  shows "last (normalizeString p b) \<noteq> CHR ''/''"
proof -
  let ?st = "foldl (normalizeStep b) [] (split_on CHR ''/'' p)"
  have g: "goodStack ?st"
    by (rule goodStack_foldl) (auto simp: goodStack_def split_on_no_sep)
  from assms have ne: "?st \<noteq> []" by (auto simp: normalizeString_def)
  then have hd_in: "hd ?st \<in> set ?st" by simp
  with g have h: "hd ?st \<noteq> []" "CHR ''/'' \<notin> set (hd ?st)" by (auto simp: goodStack_def)
  have "last (rev ?st) = hd ?st" using ne by (simp add: last_rev)
  with ne h have "last (join_with ''/'' (rev ?st)) = last (hd ?st)"
    using join_with_last [of "rev ?st" "''/''"] by simp
  moreover have "last (hd ?st) \<in> set (hd ?st)" using h(1) by simp
  ultimately show ?thesis using h(2) by (auto simp: normalizeString_def)
qed

lemma normalizeString_snoc_slash: "normalizeString (t @ ''/'') b = normalizeString t b"
  by (simp add: normalizeString_def split_on_snoc_sep normalizeStep_def)

lemma path_normalize_snoc_slash:
  assumes "t \<noteq> []"
  shows "stripTrailing CHR ''/'' (path_normalize (t @ ''/'')) = stripTrailing CHR ''/'' (path_normalize t)"
proof -
  have l: "normalizeString t b \<noteq> [] \<Longrightarrow> last (normalizeString t b) \<noteq> CHR ''/''" for b
    by (rule normalizeString_last)
  show ?thesis using assms l [of "hd t \<noteq> CHR ''/''"] l[of True] l[of False]
    by (auto simp: path_normalize_def normalizeString_snoc_slash stripTrailing_def Let_def)
qed

lemma path_normalize_snoc_backslash:
  assumes ne: "t \<noteq> []" and l1: "last t \<noteq> CHR ''/''"
    and seg: "last (split_on CHR ''/'' t) \<notin> {''.'', ''..''}"
  shows "path_normalize (t @ [backslash]) = path_normalize t @ [backslash] \<and>
         path_normalize t \<noteq> [] \<and> last (path_normalize t) = last t"
proof -
  let ?segs = "split_on CHR ''/'' t"
  let ?L = "last ?segs"
  have bs: "backslash \<noteq> CHR ''/''" "backslash \<noteq> CHR ''.''" by (simp_all add: backslash_def)
  have Lne: "?L \<noteq> []" using ne l1 by (simp add: last_split_on_empty)
  have Llast: "last ?L = last t" using ne l1 by (rule last_last_split_on)
  have segs: "?segs = butlast ?segs @ [?L]" by (simp add: split_on_nonempty)
  have segs': "split_on CHR ''/'' (t @ [backslash]) = butlast ?segs @ [?L @ [backslash]]"
    using bs by (simp add: split_on_snoc_other)
  have "last (?L @ [backslash]) \<noteq> CHR ''.''" using bs by simp
  then have Lb: "?L @ [backslash] \<noteq> []" "?L @ [backslash] \<noteq> ''.''" "?L @ [backslash] \<noteq> ''..''"
    by (simp, metis last.simps, metis last.simps list.discI)
  have Lp: "?L \<noteq> ''.''" "?L \<noteq> ''..''" using seg by auto
  have ns: "normalizeString t b = join_with ''/'' (rev (foldl (normalizeStep b) [] (butlast ?segs)) @ [?L])" for b
  proof -
    have "foldl (normalizeStep b) [] ?segs = normalizeStep b (foldl (normalizeStep b) [] (butlast ?segs)) ?L"
      by (subst segs) (simp only: foldl_append foldl.simps)
    also have "\<dots> = ?L # foldl (normalizeStep b) [] (butlast ?segs)"
      by (rule normalizeStep_push [OF Lne Lp])
    finally show ?thesis by (simp add: normalizeString_def)
  qed
  have ns': "normalizeString (t @ [backslash]) b = normalizeString t b @ [backslash]" for b
  proof -
    have "foldl (normalizeStep b) [] (split_on CHR ''/'' (t @ [backslash]))
        = (?L @ [backslash]) # foldl (normalizeStep b) [] (butlast ?segs)"
      by (simp only: segs' foldl_append foldl.simps normalizeStep_push [OF Lb])
    then have "normalizeString (t @ [backslash]) b
        = join_with ''/'' (rev (foldl (normalizeStep b) [] (butlast ?segs)) @ [?L @ [backslash]])"
      by (simp add: normalizeString_def)
    also have "\<dots> = join_with ''/'' (rev (foldl (normalizeStep b) [] (butlast ?segs)) @ [?L]) @ [backslash]"
      by (simp add: join_with_snoc)
    finally show ?thesis by (simp only: ns)
  qed
  have nne: "normalizeString t b \<noteq> []" for b
    using Lne by (auto simp: ns join_with_snoc)
  have nlast: "last (normalizeString t b) = last t" for b
    using Lne Llast by (auto simp: ns join_with_snoc)
  show ?thesis using ne l1 bs nne nlast
    by (auto simp: path_normalize_def ns' Let_def)
qed

lemma trim_keep:
  assumes "p \<noteq> []" "\<not> isWhiteSpace (last p)"
  shows "trim p = dropWhile isWhiteSpace p" "trim p \<noteq> []" "last (trim p) = last p"
proof -
  let ?q = "dropWhile isWhiteSpace p"
  have "last p \<in> set p" using assms by simp
  then have ex: "\<exists>x\<in>set p. \<not> isWhiteSpace x" using assms by blast
  then have qne: "?q \<noteq> []" by (simp add: dropWhile_eq_Nil_conv)
  have "dropWhile isWhiteSpace (butlast p @ [last p]) = dropWhile isWhiteSpace (butlast p) @ [last p]"
    using assms(2) by (simp add: dropWhile_append3)
  then have q: "?q = dropWhile isWhiteSpace (butlast p) @ [last p]"
    using assms(1) by simp
  then have "rev ?q = last p # rev (dropWhile isWhiteSpace (butlast p))" by simp
  then have "dropWhile isWhiteSpace (rev ?q) = rev ?q" using assms by simp
  then show t: "trim p = dropWhile isWhiteSpace p" by (simp add: trim_def)
  show "trim p \<noteq> []" using t qne by simp
  show "last (trim p) = last p" using t q by simp
qed

lemma trim_snoc:
  assumes "p \<noteq> []" "\<not> isWhiteSpace (last p)" "\<not> isWhiteSpace c"
  shows "trim (p @ [c]) = trim p @ [c]"
proof -
  have "trim (p @ [c]) = dropWhile isWhiteSpace (p @ [c])"
    using assms(3) by (intro trim_keep(1)) simp_all
  also have "\<dots> = dropWhile isWhiteSpace p @ [c]"
    using assms(3) by (simp add: dropWhile_append3)
  finally show ?thesis using assms by (simp add: trim_keep(1))
qed

text \<open>
  C8. \<open>normalizePathForMatch\<close> is a total function: it is composed of operations that
  are defined on every string, so no input makes it fail. Appending a trailing separator
  does not change the result for the paths below: for every non-empty path that does not
  end in white space, appending \<open>/\<close> leaves the normal form unchanged; appending a
  backslash leaves it unchanged when, in addition, the path does not already end in a
  separator and its last \<open>/\<close>-separated component is neither \<open>.\<close> nor \<open>..\<close>.
\<close>

theorem normalizePathForMatch_trailing_separator:
  "p \<noteq> [] \<Longrightarrow> \<not> isWhiteSpace (last p) \<Longrightarrow>
   normalizePathForMatch (p @ ''/'') = normalizePathForMatch p \<and>
   (last p \<noteq> CHR ''/'' \<and> last p \<noteq> backslash \<and>
    last (split_on CHR ''/'' (trim p)) \<notin> {''.'', ''..''} \<longrightarrow>
    normalizePathForMatch (p @ [backslash]) = normalizePathForMatch p)"
proof (intro conjI impI)
  assume p: "p \<noteq> []" "\<not> isWhiteSpace (last p)"
  have ws: "\<not> isWhiteSpace CHR ''/''" "\<not> isWhiteSpace backslash"
    by (simp_all add: isWhiteSpace_def backslash_def)
  note tk = trim_keep [OF p]
  show "normalizePathForMatch (p @ ''/'') = normalizePathForMatch p"
    using path_normalize_snoc_slash [OF tk(2)]
    by (simp add: normalizePathForMatch_def trim_snoc [OF p ws(1)] path_sep_def)
  assume a: "last p \<noteq> CHR ''/'' \<and> last p \<noteq> backslash \<and>
    last (split_on CHR ''/'' (trim p)) \<notin> {''.'', ''..''}"
  then have "last (trim p) \<noteq> CHR ''/''" using tk(3) by simp
  from path_normalize_snoc_backslash [OF tk(2) this] a
  have n: "path_normalize (trim p @ [backslash]) = path_normalize (trim p) @ [backslash]"
     "path_normalize (trim p) \<noteq> []" "last (path_normalize (trim p)) = last p"
    using tk(3) by simp_all
  have bs: "backslash \<noteq> CHR ''/''" by (simp add: backslash_def)
  show "normalizePathForMatch (p @ [backslash]) = normalizePathForMatch p"
    using n a bs
    by (simp add: normalizePathForMatch_def trim_snoc [OF p ws(2)] path_sep_def
        stripTrailing_def last_map)
qed

theorem normalizePathForMatch_trailing_separator_witness:
  "normalizePathForMatch (''/home/u/app'' @ ''/'') = normalizePathForMatch ''/home/u/app'' \<and>
   normalizePathForMatch (''/home/u/app'' @ [backslash]) = normalizePathForMatch ''/home/u/app''"
proof -
  have h1: "''/home/u/app'' \<noteq> []" by simp
  have h2: "\<not> isWhiteSpace (last ''/home/u/app'')" by (simp add: isWhiteSpace_def)
  have h3: "last ''/home/u/app'' \<noteq> CHR ''/'' \<and> last ''/home/u/app'' \<noteq> backslash \<and>
    last (split_on CHR ''/'' (trim ''/home/u/app'')) \<notin> {''.'', ''..''}"
    by (simp add: backslash_def trim_def isWhiteSpace_def)
  from normalizePathForMatch_trailing_separator [OF h1 h2] h3 show ?thesis by blast
qed

text \<open>
  Without the side conditions the equation fails: the empty path normalises to \<open>.\<close>,
  the empty path followed by a separator to \<open>/\<close>.
\<close>

theorem normalizePathForMatch_trailing_separator_counterexample:
  "normalizePathForMatch ('''' @ ''/'') \<noteq> normalizePathForMatch ''''"
  by (simp add: normalizePathForMatch_def trim_def path_normalize_def normalizeString_def
      normalizeStep_def stripTrailing_def lowerDrive_def path_sep_def backslash_def
      isWhiteSpace_def)

section \<open>Properties of the extractors\<close>

lemma keepEarliest_None [simp]: "keepEarliest cur None = cur"
  by (simp add: keepEarliest_def)

lemma keepLatest_None [simp]: "keepLatest cur None = cur"
  by (simp add: keepLatest_def)

lemma codexLine_timestamps:
  "firstMessageAt (fst (codexLine parse date (c, m) line))
     = keepEarliest (firstMessageAt c) (lineTimestamp parse date line) \<and>
   lastMessageAt (fst (codexLine parse date (c, m) line))
     = keepLatest (lastMessageAt c) (lineTimestamp parse date line)"
proof (cases "parse line")
  case None
  then show ?thesis by (simp add: codexLine_def lineTimestamp_def)
next
  case (Some event)
  then show ?thesis
    by (cases event) (simp_all add: codexLine_def lineTimestamp_def Let_def)
qed

lemma codexLine_kept:
  "jsonlFile (fst (codexLine parse date (c, m) line)) = jsonlFile c \<and>
   messageCount (fst (codexLine parse date (c, m) line)) = messageCount c \<and>
   source (fst (codexLine parse date (c, m) line)) = source c"
proof (cases "parse line")
  case None
  then show ?thesis by (simp add: codexLine_def)
next
  case (Some event)
  then show ?thesis
    by (cases event) (simp_all add: codexLine_def Let_def)
qed

lemma claudeMetadataLine_first:
  "firstMessageAt (fst (claudeMetadataLine parse date (c, m) line))
     = keepEarliest (firstMessageAt c) (lineTimestamp parse date line)"
proof (cases "parse line")
  case None
  then show ?thesis by (simp add: claudeMetadataLine_def lineTimestamp_def)
next
  case (Some message)
  then show ?thesis
    by (cases message) (simp_all add: claudeMetadataLine_def lineTimestamp_def Let_def split: option.splits)
qed

lemma claudeMetadataLine_kept:
  "jsonlFile (fst (claudeMetadataLine parse date (c, m) line)) = jsonlFile c \<and>
   messageCount (fst (claudeMetadataLine parse date (c, m) line)) = messageCount c \<and>
   source (fst (claudeMetadataLine parse date (c, m) line)) = source c"
proof (cases "parse line")
  case None
  then show ?thesis by (simp add: claudeMetadataLine_def)
next
  case (Some message)
  then show ?thesis
    by (cases message) (simp_all add: claudeMetadataLine_def Let_def split: option.splits)
qed

lemma tsInv_step: "tsInv a b \<Longrightarrow> tsInv (keepEarliest a ts) (keepLatest b ts)"
  by (cases ts; cases a; cases b) (auto simp: tsInv_def keepEarliest_def keepLatest_def)

lemma codex_fold_inv:
  "tsInv (firstMessageAt (fst acc)) (lastMessageAt (fst acc)) \<Longrightarrow>
   tsInv (firstMessageAt (fst (foldl (codexLine parse date) acc lines)))
         (lastMessageAt (fst (foldl (codexLine parse date) acc lines)))"
proof (induction lines arbitrary: acc)
  case Nil
  then show ?case by simp
next
  case (Cons line lines)
  obtain c m where acc: "acc = (c, m)" by (cases acc)
  have "tsInv (firstMessageAt (fst (codexLine parse date acc line)))
              (lastMessageAt (fst (codexLine parse date acc line)))"
    using Cons.prems by (simp add: acc codexLine_timestamps tsInv_step)
  then show ?case using Cons.IH by simp
qed

lemma codex_ordered:
  "tsInv (firstMessageAt (extractConversationFromCodexLines parse date lines file))
         (lastMessageAt (extractConversationFromCodexLines parse date lines file))"
proof -
  have "tsInv (firstMessageAt (fst (foldl (codexLine parse date) (blankConversation codex file (length lines), []) lines)))
              (lastMessageAt (fst (foldl (codexLine parse date) (blankConversation codex file (length lines), []) lines)))"
    by (rule codex_fold_inv) (simp add: blankConversation_def tsInv_def)
  then show ?thesis
    by (simp add: extractConversationFromCodexLines_def case_prod_beta)
qed

lemma keepEarliest_le:
  "keepEarliest cur ts = Some m \<Longrightarrow>
   (\<forall>t. ts = Some t \<longrightarrow> m \<le> t) \<and> (\<forall>t. cur = Some t \<longrightarrow> m \<le> t)"
  by (cases ts; cases cur) (auto simp: keepEarliest_def split: if_splits)

lemma keepEarliest_Some: "cur = Some t \<or> ts = Some t \<Longrightarrow> \<exists>m. keepEarliest cur ts = Some m"
  by (cases ts; cases cur) (auto simp: keepEarliest_def)

lemma claude_fold_first:
  "(\<exists>line\<in>set lines. lineTimestamp parse date line = Some t) \<or> firstMessageAt (fst acc) = Some t \<Longrightarrow>
   \<exists>m. firstMessageAt (fst (foldl (claudeMetadataLine parse date) acc lines)) = Some m \<and> m \<le> t"
proof (induction lines arbitrary: acc t)
  case Nil
  then show ?case by simp
next
  case (Cons line lines)
  obtain c m where acc: "acc = (c, m)" by (cases acc)
  let ?acc' = "claudeMetadataLine parse date acc line"
  have f: "firstMessageAt (fst ?acc') = keepEarliest (firstMessageAt c) (lineTimestamp parse date line)"
    by (simp add: acc claudeMetadataLine_first)
  consider (here) "lineTimestamp parse date line = Some t \<or> firstMessageAt (fst acc) = Some t"
    | (later) "\<exists>l\<in>set lines. lineTimestamp parse date l = Some t"
    using Cons.prems by auto
  then show ?case
  proof cases
    case here
    then obtain m' where m': "firstMessageAt (fst ?acc') = Some m'"
      using keepEarliest_Some [of "firstMessageAt c" t "lineTimestamp parse date line"] f acc by auto
    then have "m' \<le> t" using keepEarliest_le [of "firstMessageAt c" "lineTimestamp parse date line" m'] f here acc
      by auto
    moreover obtain m'' where "firstMessageAt (fst (foldl (claudeMetadataLine parse date) ?acc' lines)) = Some m''" "m'' \<le> m'"
      using Cons.IH [of m' ?acc'] m' by auto
    ultimately show ?thesis by auto
  next
    case later
    then show ?thesis using Cons.IH [of t ?acc'] by auto
  qed
qed

lemma claudeLastTimestamp_Cons:
  "claudeLastTimestamp parse date (line # lines) =
     (case lineTimestamp parse date line of
        Some t \<Rightarrow> Some t
      | None \<Rightarrow> claudeLastTimestamp parse date lines)"
proof (cases "parse line")
  case None
  then show ?thesis by (simp add: lineTimestamp_def)
next
  case (Some message)
  then show ?thesis
    by (cases message) (simp_all add: lineTimestamp_def split: option.splits)
qed

lemma claudeLastTimestamp_from_line:
  "claudeLastTimestamp parse date lines = Some t \<Longrightarrow> \<exists>line\<in>set lines. lineTimestamp parse date line = Some t"
proof (induction lines)
  case Nil
  then show ?case by simp
next
  case (Cons line lines)
  then show ?case
    by (cases "lineTimestamp parse date line") (auto simp: claudeLastTimestamp_Cons simp del: claudeLastTimestamp.simps)
qed

lemma claude_ordered:
  assumes "length lines \<le> 80"
    and "firstMessageAt (extractConversationFromClaudeLines parse date lines file) = Some a"
    and "lastMessageAt (extractConversationFromClaudeLines parse date lines file) = Some b"
  shows "a \<le> b"
proof -
  let ?acc = "foldl (claudeMetadataLine parse date) (blankConversation claude file (length lines), []) lines"
  have first: "firstMessageAt (fst ?acc) = Some a"
    using assms(1,2) by (simp add: extractConversationFromClaudeLines_def case_prod_beta Let_def)
  have "claudeLastTimestamp parse date (rev (drop (length lines - 50) lines)) = Some b"
    using assms(3) by (simp add: extractConversationFromClaudeLines_def case_prod_beta Let_def)
  then obtain line where "line \<in> set (drop (length lines - 50) lines)" "lineTimestamp parse date line = Some b"
    using claudeLastTimestamp_from_line by fastforce
  then have "\<exists>line\<in>set lines. lineTimestamp parse date line = Some b"
    using set_drop_subset by fastforce
  then obtain m where "firstMessageAt (fst ?acc) = Some m" "m \<le> b"
    using claude_fold_first [of lines parse date b] by blast
  with first show ?thesis by simp
qed

section \<open>Properties of discovery\<close>

lemma claude_fold_kept:
  "jsonlFile (fst (foldl (claudeMetadataLine parse date) acc lines)) = jsonlFile (fst acc) \<and>
   messageCount (fst (foldl (claudeMetadataLine parse date) acc lines)) = messageCount (fst acc) \<and>
   source (fst (foldl (claudeMetadataLine parse date) acc lines)) = source (fst acc)"
proof (induction lines arbitrary: acc)
  case Nil
  then show ?case by simp
next
  case (Cons line lines)
  obtain c m where acc: "acc = (c, m)" by (cases acc)
  show ?case using Cons [of "claudeMetadataLine parse date acc line"]
    by (simp add: acc claudeMetadataLine_kept)
qed

lemma codex_fold_kept:
  "jsonlFile (fst (foldl (codexLine parse date) acc lines)) = jsonlFile (fst acc) \<and>
   messageCount (fst (foldl (codexLine parse date) acc lines)) = messageCount (fst acc) \<and>
   source (fst (foldl (codexLine parse date) acc lines)) = source (fst acc)"
proof (induction lines arbitrary: acc)
  case Nil
  then show ?case by simp
next
  case (Cons line lines)
  obtain c m where acc: "acc = (c, m)" by (cases acc)
  show ?case using Cons [of "codexLine parse date acc line"]
    by (simp add: acc codexLine_kept)
qed

lemma extractClaude_kept:
  "jsonlFile (extractConversationFromClaudeLines parse date lines f) = f \<and>
   messageCount (extractConversationFromClaudeLines parse date lines f) = length lines \<and>
   source (extractConversationFromClaudeLines parse date lines f) = claude"
  by (simp add: extractConversationFromClaudeLines_def Let_def case_prod_beta claude_fold_kept
      blankConversation_def)

lemma extractCodex_kept:
  "jsonlFile (extractConversationFromCodexLines parse date lines f) = f \<and>
   messageCount (extractConversationFromCodexLines parse date lines f) = length lines \<and>
   source (extractConversationFromCodexLines parse date lines f) = codex"
  by (simp add: extractConversationFromCodexLines_def Let_def case_prod_beta codex_fold_kept
      blankConversation_def)

lemma discoverFromFiles_append:
  "discoverConversationsFromFiles env (xs @ ys) src
     = discoverConversationsFromFiles env xs src @ discoverConversationsFromFiles env ys src"
  by (induction xs) (auto simp: Let_def split: option.splits)

lemma discoverFromFiles_member:
  "c \<in> set (discoverConversationsFromFiles env files src) \<Longrightarrow>
   jsonlFile c \<in> set files \<and> source c = src \<and>
   (\<exists>raw. readFileSync env (jsonlFile c) = Some raw \<and>
          messageCount c = length (nonBlankLines raw) \<and> 1 \<le> messageCount c)"
proof (induction files)
  case Nil
  then show ?case by simp
next
  case (Cons f files)
  show ?case
  proof (cases "readFileSync env f")
    case None
    with Cons show ?thesis by auto
  next
    case (Some raw)
    show ?thesis
    proof (cases "nonBlankLines raw = []")
      case True
      with Cons Some show ?thesis by auto
    next
      case False
      then have pos: "1 \<le> length (nonBlankLines raw)" by (cases "nonBlankLines raw") simp_all
      from Cons.prems Some False
      consider (head) "c = (if src = claude
                 then extractConversationFromClaudeLines (JSON_parse env) (Date_parse env) (nonBlankLines raw) f
                 else extractConversationFromCodexLines (JSON_parse env) (Date_parse env) (nonBlankLines raw) f)"
        | (tail) "c \<in> set (discoverConversationsFromFiles env files src)"
        by (auto simp: Let_def)
      then show ?thesis
      proof cases
        case head
        then show ?thesis using Some pos
          by (cases src) (auto simp: extractClaude_kept extractCodex_kept)
      next
        case tail
        with Cons.IH show ?thesis by auto
      qed
    qed
  qed
qed

lemma discover_member:
  "c \<in> set (discoverConversations env srcs) \<Longrightarrow>
   \<exists>files. c \<in> set (discoverConversationsFromFiles env files (source c))"
proof -
  assume "c \<in> set (discoverConversations env srcs)"
  then obtain files src where m: "c \<in> set (discoverConversationsFromFiles env files src)"
    by (auto simp: discoverConversations_def Let_def split: if_splits)
  then have "source c = src" using discoverFromFiles_member by blast
  with m show ?thesis by blast
qed

section \<open>Properties of the engine\<close>

subsection \<open>Counting steps\<close>

lemma bump_sources:
  "sources (bump f src r) s = (if s = src then f (sources r src) else sources r s)"
  by (simp add: bump_def)

lemma bump_others:
  "mode (bump f src r) = mode r" "total_discovered (bump f src r) = total_discovered r"
  "total_matched (bump f src r) = total_matched r" "total_unmapped (bump f src r) = total_unmapped r"
  "total_existing (bump f src r) = total_existing r" "total_inserted (bump f src r) = total_inserted r"
  "truncated (bump f src r) = truncated r" "working_directories (bump f src r) = working_directories r"
  "unmapped_examples (bump f src r) = unmapped_examples r"
  "existing_examples (bump f src r) = existing_examples r"
  "inserted_examples (bump f src r) = inserted_examples r"
  by (simp_all add: bump_def)

lemma countDiscovered_fold:
  "discovered (sources (foldl countDiscovered r items) src)
     = discovered (sources r src) + length (ofSource src items) \<and>
   matched (sources (foldl countDiscovered r items) src) = matched (sources r src) \<and>
   unmapped (sources (foldl countDiscovered r items) src) = unmapped (sources r src) \<and>
   existing (sources (foldl countDiscovered r items) src) = existing (sources r src) \<and>
   inserted (sources (foldl countDiscovered r items) src) = inserted (sources r src) \<and>
   mode (foldl countDiscovered r items) = mode r \<and>
   total_matched (foldl countDiscovered r items) = total_matched r \<and>
   total_unmapped (foldl countDiscovered r items) = total_unmapped r \<and>
   total_existing (foldl countDiscovered r items) = total_existing r \<and>
   total_inserted (foldl countDiscovered r items) = total_inserted r \<and>
   truncated (foldl countDiscovered r items) = truncated r \<and>
   working_directories (foldl countDiscovered r items) = working_directories r"
  by (induction items arbitrary: r)
     (simp_all add: countDiscovered_def bump_sources bump_others ofSource_def)

lemma tally_fields:
  "existing (sources (tally ex r items) src)
     = existing (sources r src) + length (filter (\<lambda>i. jsonlFile i \<in> set ex) (ofSource src items)) \<and>
   inserted (sources (tally ex r items) src)
     = inserted (sources r src) + length (filter (\<lambda>i. jsonlFile i \<notin> set ex) (ofSource src items)) \<and>
   total_existing (tally ex r items)
     = total_existing r + length (filter (\<lambda>i. jsonlFile i \<in> set ex) items) \<and>
   total_inserted (tally ex r items)
     = total_inserted r + length (filter (\<lambda>i. jsonlFile i \<notin> set ex) items) \<and>
   discovered (sources (tally ex r items) src) = discovered (sources r src) \<and>
   matched (sources (tally ex r items) src) = matched (sources r src) \<and>
   unmapped (sources (tally ex r items) src) = unmapped (sources r src) \<and>
   mode (tally ex r items) = mode r \<and>
   total_discovered (tally ex r items) = total_discovered r \<and>
   total_matched (tally ex r items) = total_matched r \<and>
   total_unmapped (tally ex r items) = total_unmapped r \<and>
   truncated (tally ex r items) = truncated r \<and>
   working_directories (tally ex r items) = working_directories r"
  unfolding tally_def
  by (induction items arbitrary: r)
     (simp_all add: countExisting_def countInserted_def bump_sources bump_others ofSource_def Let_def)

lemma matchLoop_items:
  "snd (matchLoop wds items (r, ms)) = ms @ map withNormalizedCwd (filter (isMatched wds) items)"
  by (induction items arbitrary: r ms)
     (simp_all add: Let_def isMatched_def withNormalizedCwd_def)

lemma matchLoop_fields:
  "matched (sources (fst (matchLoop wds items (r, ms))) src)
     = matched (sources r src) + length (ofSource src (filter (isMatched wds) items)) \<and>
   unmapped (sources (fst (matchLoop wds items (r, ms))) src)
     = unmapped (sources r src) + length (ofSource src (filter (\<lambda>i. \<not> isMatched wds i) items)) \<and>
   total_matched (fst (matchLoop wds items (r, ms)))
     = total_matched r + length (filter (isMatched wds) items) \<and>
   total_unmapped (fst (matchLoop wds items (r, ms)))
     = total_unmapped r + length (filter (\<lambda>i. \<not> isMatched wds i) items) \<and>
   discovered (sources (fst (matchLoop wds items (r, ms))) src) = discovered (sources r src) \<and>
   existing (sources (fst (matchLoop wds items (r, ms))) src) = existing (sources r src) \<and>
   inserted (sources (fst (matchLoop wds items (r, ms))) src) = inserted (sources r src) \<and>
   mode (fst (matchLoop wds items (r, ms))) = mode r \<and>
   total_discovered (fst (matchLoop wds items (r, ms))) = total_discovered r \<and>
   total_existing (fst (matchLoop wds items (r, ms))) = total_existing r \<and>
   total_inserted (fst (matchLoop wds items (r, ms))) = total_inserted r \<and>
   truncated (fst (matchLoop wds items (r, ms))) = truncated r \<and>
   working_directories (fst (matchLoop wds items (r, ms))) = working_directories r"
  by (induction items arbitrary: r ms)
     (simp_all add: Let_def isMatched_def bump_sources bump_others ofSource_def)

subsection \<open>Effects on the store\<close>

lemma performWrite_calls:
  "calls (snd (performWrite store w st)) = calls st @ [(w, fst (performWrite store w st))]"
  by (simp add: performWrite_def split: sum.splits)

lemma sessionLoop_no_writes:
  "snd (sessionLoop env store agentId False sessions acc st) = st"
proof (induction sessions arbitrary: acc)
  case Nil
  then show ?case by simp
next
  case (Cons s rest)
  then show ?case by (cases s) (simp_all add: Let_def)
qed

lemma sessionLoop_calls:
  "\<exists>new. calls (snd (sessionLoop env store agentId applyWrites sessions acc st)) = calls st @ new \<and>
         (\<forall>c\<in>set new. isSessionWrite (fst c))"
proof (induction sessions arbitrary: acc st)
  case Nil
  then show ?case by simp
next
  case (Cons s rest)
  show ?case
  proof (cases s)
    case None
    then show ?thesis by simp
  next
    case (Some session)
    let ?w = "RecordSession (sessionRecordOf env agentId session)"
    let ?acc2 = "noteSession acc session"
    show ?thesis
    proof (cases "ls_agentId session \<noteq> agentId")
      case True
      with Cons [of acc st] Some show ?thesis by simp
    next
      case same: False
      show ?thesis
      proof (cases applyWrites)
        case False
        with same Cons Some show ?thesis by (simp add: Let_def)
      next
        case True
        obtain e st' where pw: "performWrite store ?w st = (e, st')" by (cases "performWrite store ?w st")
        then have c: "calls st' = calls st @ [(?w, e)]" using performWrite_calls [of store ?w st] by simp
        show ?thesis
        proof (cases e)
          case (Some err)
          with same True pw c \<open>s = Some session\<close> show ?thesis by (simp add: Let_def isSessionWrite_def)
        next
          case None
          from Cons [of ?acc2 st']
          obtain new where "calls (snd (sessionLoop env store agentId applyWrites rest ?acc2 st')) = calls st' @ new"
            "\<forall>c\<in>set new. isSessionWrite (fst c)" by auto
          then have "calls (snd (sessionLoop env store agentId applyWrites (s # rest) acc st)) = calls st @ ((?w, None) # new)"
            "\<forall>c\<in>set ((?w, None) # new). isSessionWrite (fst c)"
            using same True pw None c \<open>s = Some session\<close> by (simp_all add: Let_def isSessionWrite_def)
          then show ?thesis by blast
        qed
      qed
    qed
  qed
qed

lemma fetch_no_writes:
  "snd (fetchWorkingDirectoriesForAgent env store agentId False st) = st"
  by (simp add: fetchWorkingDirectoriesForAgent_def Let_def sessionLoop_no_writes split: LiveResponse.splits)

lemma fetch_calls:
  "\<exists>new. calls (snd (fetchWorkingDirectoriesForAgent env store agentId applyWrites st)) = calls st @ new \<and>
         (\<forall>c\<in>set new. isSessionWrite (fst c))"
proof (cases "liveSessions env")
  case (Listing sessions)
  then show ?thesis
    using sessionLoop_calls [of env store agentId applyWrites sessions]
    by (simp add: fetchWorkingDirectoriesForAgent_def Let_def)
qed (simp_all add: fetchWorkingDirectoriesForAgent_def Let_def)

lemma insertLoop_dry:
  "insertLoop store True ex items r st = (Inr (tally ex r items), st)"
  by (induction items arbitrary: r) (simp_all add: tally_def)

lemma insertLoop_result:
  "insertLoop store isDryRun ex items r st = (out, st') \<Longrightarrow>
   (\<forall>r'. out = Inr r' \<longrightarrow> r' = tally ex r items) \<and>
   (\<exists>new. calls st' = calls st @ new \<and>
      (\<forall>c\<in>set new. \<not> isSessionWrite (fst c)) \<and>
      (\<forall>w e. (w, Some e) \<in> set new \<longrightarrow> out = Inl e) \<and>
      (\<forall>e. out = Inl e \<longrightarrow> (\<exists>w. (w, Some e) \<in> set new)))"
proof (induction items arbitrary: r st)
  case Nil
  then show ?case by (auto simp: tally_def)
next
  case (Cons item items)
  let ?wp = "RecordProject (projectRecordOf item)"
  let ?wc = "RecordConversation (conversationRecordOf item)"
  show ?case
  proof (cases "jsonlFile item \<in> set ex")
    case True
    with Cons.prems have "insertLoop store isDryRun ex items (countExisting r item) st = (out, st')"
      by simp
    from Cons.IH [OF this] True show ?thesis by (simp add: tally_def)
  next
    case new: False
    show ?thesis
    proof (cases "\<not> isDryRun \<and> truthyStr (cwd item)")
      case False
      with new Cons.prems have "insertLoop store isDryRun ex items (countInserted r item) st = (out, st')"
        by auto
      from Cons.IH [OF this] new show ?thesis by (simp add: tally_def)
    next
      case True
      obtain e1 st1 where p1: "performWrite store ?wp st = (e1, st1)" by (cases "performWrite store ?wp st")
      then have c1: "calls st1 = calls st @ [(?wp, e1)]" using performWrite_calls [of store ?wp st] by simp
      show ?thesis
      proof (cases e1)
        case (Some err)
        with new True p1 Cons.prems have "out = Inl err" "st' = st1" by auto
        then show ?thesis using c1 Some by (auto simp: isSessionWrite_def)
      next
        case None
        obtain e2 st2 where p2: "performWrite store ?wc st1 = (e2, st2)" by (cases "performWrite store ?wc st1")
        then have c2: "calls st2 = calls st @ [(?wp, None), (?wc, e2)]"
          using performWrite_calls [of store ?wc st1] c1 None by simp
        show ?thesis
        proof (cases e2)
          case (Some err)
          with new True p1 p2 None Cons.prems have "out = Inl err" "st' = st2" by auto
          then show ?thesis using c2 Some by (auto simp: isSessionWrite_def)
        next
          case n2: None
          with new True p1 p2 None Cons.prems
          have "insertLoop store isDryRun ex items (countInserted r item) st2 = (out, st')" by auto
          from Cons.IH [OF this] obtain new' where
            t: "\<forall>r'. out = Inr r' \<longrightarrow> r' = tally ex (countInserted r item) items" and
            n: "calls st' = calls st2 @ new'" "\<forall>c\<in>set new'. \<not> isSessionWrite (fst c)"
               "\<forall>w e. (w, Some e) \<in> set new' \<longrightarrow> out = Inl e"
               "\<forall>e. out = Inl e \<longrightarrow> (\<exists>w. (w, Some e) \<in> set new')" by blast
          have "calls st' = calls st @ ([(?wp, None), (?wc, None)] @ new')" using n(1) c2 n2 by simp
          moreover have "\<forall>c\<in>set ([(?wp, None), (?wc, None)] @ new'). \<not> isSessionWrite (fst c)"
            using n(2) by (auto simp: isSessionWrite_def)
          moreover have "\<forall>w e. (w, Some e) \<in> set ([(?wp, None), (?wc, None)] @ new') \<longrightarrow> out = Inl e"
            using n(3) by auto
          moreover have "\<forall>e. out = Inl e \<longrightarrow> (\<exists>w. (w, Some e) \<in> set ([(?wp, None), (?wc, None)] @ new'))"
            using n(4) by auto
          ultimately show ?thesis using t new by (auto simp: tally_def intro!: exI [of _ "[(?wp, None), (?wc, None)] @ new'"])
        qed
      qed
    qed
  qed
qed

subsection \<open>The engine in stages\<close>

lemma backfill_stages:
  "backfillAgentMemory env store agentId request st =
     (let fetched = fetchWorkingDirectoriesForAgent env store agentId (dryRun request \<noteq> Some True) st;
          cls = matchLoop (workingDirectories (fst fetched)) (classifiedItems env request)
                  (reportBeforeMatching env agentId request (fst fetched), [])
      in case getExistingConversationFiles store (db (snd fetched)) of
           Inl e \<Rightarrow> (Inl e, snd fetched)
         | Inr ex \<Rightarrow> insertLoop store (dryRun request = Some True) ex (snd cls) (fst cls) (snd fetched))"
proof -
  have t: "(if length xs > n then take n xs else xs) = take n xs" for xs :: "DiscoveredConversation list" and n
    by simp
  have wd: "working_directories (foldl countDiscovered r items) = working_directories r" for r items
    using countDiscovered_fold by blast
  show ?thesis
  proof (cases "length (discoverConversations env (requestedSources request)) > requestedMaxFiles request")
    case True
    then show ?thesis
      unfolding backfillAgentMemory_def reportBeforeMatching_def classifiedItems_def Let_def case_prod_beta
      by (simp add: wd cong: sum.case_cong)
  next
    case False
    then show ?thesis
      unfolding backfillAgentMemory_def reportBeforeMatching_def classifiedItems_def Let_def case_prod_beta
      by (simp add: wd cong: sum.case_cong)
  qed
qed

text \<open>
  C9. The engine never reads the \<open>force\<close> field: whatever its value (true, false or
  omitted), the outcome, the report with all its counters and the effect on the store
  are those of the same request with any other value of \<open>force\<close>.
\<close>

theorem force_is_ignored:
  "backfillAgentMemory env store agentId (request\<lparr>force := f\<rparr>) st
     = backfillAgentMemory env store agentId request st"
  by (simp add: backfillAgentMemory_def requestedSources_def requestedMaxFiles_def)

lemma reportBeforeMatching_fields:
  "discovered (sources (reportBeforeMatching env agentId request found) src)
     = length (ofSource src (discoverConversations env (requestedSources request))) \<and>
   matched (sources (reportBeforeMatching env agentId request found) src) = 0 \<and>
   unmapped (sources (reportBeforeMatching env agentId request found) src) = 0 \<and>
   existing (sources (reportBeforeMatching env agentId request found) src) = 0 \<and>
   inserted (sources (reportBeforeMatching env agentId request found) src) = 0 \<and>
   mode (reportBeforeMatching env agentId request found)
     = (if dryRun request = Some True then DryRun else Apply) \<and>
   total_discovered (reportBeforeMatching env agentId request found)
     = length (discoverConversations env (requestedSources request)) \<and>
   total_matched (reportBeforeMatching env agentId request found) = 0 \<and>
   total_unmapped (reportBeforeMatching env agentId request found) = 0 \<and>
   total_existing (reportBeforeMatching env agentId request found) = 0 \<and>
   total_inserted (reportBeforeMatching env agentId request found) = 0 \<and>
   truncated (reportBeforeMatching env agentId request found)
     = (length (discoverConversations env (requestedSources request)) > requestedMaxFiles request) \<and>
   working_directories (reportBeforeMatching env agentId request found) = workingDirectories found"
  by (simp add: reportBeforeMatching_def Let_def countDiscovered_fold emptyReport_def emptySourceStats_def)

lemma backfill_report:
  assumes "fst (backfillAgentMemory env store agentId request st) = Inr r"
  shows "\<exists>ex. getExistingConversationFiles store (db (lookupState env store agentId request st)) = Inr ex \<and>
     r = tally ex
          (fst (matchLoop (workingDirectories (resolverResult env store agentId request st))
                  (classifiedItems env request)
                  (reportBeforeMatching env agentId request (resolverResult env store agentId request st), [])))
          (map withNormalizedCwd
             (filter (isMatched (workingDirectories (resolverResult env store agentId request st)))
                (classifiedItems env request)))"
proof (cases "getExistingConversationFiles store (db (lookupState env store agentId request st))")
  case (Inl e)
  with assms show ?thesis
    by (simp add: backfill_stages lookupState_def Let_def)
next
  case (Inr ex)
  let ?found = "resolverResult env store agentId request st"
  let ?cls = "matchLoop (workingDirectories ?found) (classifiedItems env request)
                  (reportBeforeMatching env agentId request ?found, [])"
  obtain out st' where il: "insertLoop store (dryRun request = Some True) ex (snd ?cls) (fst ?cls)
      (lookupState env store agentId request st) = (out, st')"
    by (cases "insertLoop store (dryRun request = Some True) ex (snd ?cls) (fst ?cls)
      (lookupState env store agentId request st)")
  with assms Inr have "out = Inr r"
    by (simp add: backfill_stages lookupState_def resolverResult_def Let_def)
  with insertLoop_result [OF il] have "r = tally ex (fst ?cls) (snd ?cls)" by blast
  then show ?thesis using Inr by (simp add: matchLoop_items)
qed

lemma ofSource_map_normalized:
  "ofSource src (map withNormalizedCwd items) = map withNormalizedCwd (ofSource src items)"
  by (induction items) (simp_all add: ofSource_def withNormalizedCwd_def)

lemma filter_file_map_normalized:
  "length (filter (\<lambda>i. P (jsonlFile i)) (map withNormalizedCwd items))
     = length (filter (\<lambda>i. P (jsonlFile i)) items)"
  by (induction items) (simp_all add: withNormalizedCwd_def)

lemma ofSource_split:
  "length (ofSource claude items) + length (ofSource codex items) = length items"
proof (induction items)
  case Nil
  then show ?case by (simp add: ofSource_def)
next
  case (Cons item items)
  then show ?case by (cases "source item") (simp_all add: ofSource_def)
qed

subsection \<open>Report invariants\<close>

text \<open>
  C4. Whenever the engine returns a report, each source's counters satisfy
  \<open>matched = existing + inserted\<close>, and so do the totals.
\<close>

theorem matched_is_existing_plus_inserted:
  "fst (backfillAgentMemory env store agentId request st) = Inr r \<Longrightarrow>
   (\<forall>src. matched (sources r src) = existing (sources r src) + inserted (sources r src)) \<and>
   total_matched r = total_existing r + total_inserted r"
proof -
  assume a: "fst (backfillAgentMemory env store agentId request st) = Inr r"
  let ?found = "resolverResult env store agentId request st"
  let ?wds = "workingDirectories ?found"
  let ?items = "classifiedItems env request"
  let ?rb = "reportBeforeMatching env agentId request ?found"
  let ?r0 = "fst (matchLoop ?wds ?items (?rb, []))"
  let ?ms = "map withNormalizedCwd (filter (isMatched ?wds) ?items)"
  from backfill_report [OF a] obtain ex where r: "r = tally ex ?r0 ?ms" by blast
  have per: "matched (sources r src) = existing (sources r src) + inserted (sources r src)" for src
  proof -
    have m: "matched (sources r src) = length (ofSource src ?ms)"
      by (simp add: r tally_fields matchLoop_fields reportBeforeMatching_fields ofSource_map_normalized)
    have e: "existing (sources r src) = length (filter (\<lambda>i. jsonlFile i \<in> set ex) (ofSource src ?ms))"
      by (simp add: r tally_fields matchLoop_fields reportBeforeMatching_fields)
    have i: "inserted (sources r src) = length (filter (\<lambda>i. jsonlFile i \<notin> set ex) (ofSource src ?ms))"
      by (simp add: r tally_fields matchLoop_fields reportBeforeMatching_fields)
    show ?thesis unfolding m e i
      using sum_length_filter_compl [of "\<lambda>i. jsonlFile i \<in> set ex" "ofSource src ?ms"] by simp
  qed
  have tm: "total_matched r = length ?ms"
    by (simp add: r tally_fields matchLoop_fields reportBeforeMatching_fields)
  have te: "total_existing r = length (filter (\<lambda>i. jsonlFile i \<in> set ex) ?ms)"
    by (simp add: r tally_fields matchLoop_fields reportBeforeMatching_fields)
  have ti: "total_inserted r = length (filter (\<lambda>i. jsonlFile i \<notin> set ex) ?ms)"
    by (simp add: r tally_fields matchLoop_fields reportBeforeMatching_fields)
  have "total_matched r = total_existing r + total_inserted r"
    unfolding tm te ti
    using sum_length_filter_compl [of "\<lambda>i. jsonlFile i \<in> set ex" ?ms] by simp
  with per show ?thesis by blast
qed

theorem matched_is_existing_plus_inserted_witness:
  "fst (backfillAgentMemory exampleEnv keyedStore ''agent-1'' emptyRequest emptyState)
     = Inr (projr (fst (backfillAgentMemory exampleEnv keyedStore ''agent-1'' emptyRequest emptyState))) \<and>
   total_matched (projr (fst (backfillAgentMemory exampleEnv keyedStore ''agent-1'' emptyRequest emptyState)))
     = total_existing (projr (fst (backfillAgentMemory exampleEnv keyedStore ''agent-1'' emptyRequest emptyState)))
       + total_inserted (projr (fst (backfillAgentMemory exampleEnv keyedStore ''agent-1'' emptyRequest emptyState)))"
proof -
  let ?R = "backfillAgentMemory exampleEnv keyedStore ''agent-1'' emptyRequest emptyState"
  have "\<not> isl (fst ?R)" by code_simp
  then have r: "fst ?R = Inr (projr (fst ?R))" by (cases "fst ?R") simp_all
  from matched_is_existing_plus_inserted [OF r] r show ?thesis by blast
qed

subsection \<open>Dry-run and apply\<close>

lemma backfill_dry_state:
  assumes "dryRun request = Some True"
  shows "snd (backfillAgentMemory env store agentId request st) = st"
proof -
  have f: "snd (fetchWorkingDirectoriesForAgent env store agentId (dryRun request \<noteq> Some True) st) = st"
    using assms by (simp add: fetch_no_writes)
  show ?thesis
    using assms f
    by (cases "getExistingConversationFiles store (db st)")
       (simp_all add: backfill_stages Let_def insertLoop_dry)
qed

lemma backfill_mode:
  assumes "fst (backfillAgentMemory env store agentId request st) = Inr r"
  shows "mode r = (if dryRun request = Some True then DryRun else Apply)"
proof -
  from backfill_report [OF assms] obtain ex ms where "r = tally ex (fst (matchLoop
     (workingDirectories (resolverResult env store agentId request st)) (classifiedItems env request)
     (reportBeforeMatching env agentId request (resolverResult env store agentId request st), []))) ms"
    by blast
  then show ?thesis
    by (simp add: tally_fields matchLoop_fields reportBeforeMatching_fields)
qed

text \<open>
  C1. The engine computes \<open>dryRun\<close> as \<open>request.dryRun === true\<close>: a request without the
  field is treated exactly as one with \<open>dryRun = false\<close>, and a report it returns has mode
  \<open>apply\<close>. The dry-run default is supplied by the backfill route, which passes
  \<open>dryRun: body.dryRun !== false\<close>: for a body without the field the engine's request has
  \<open>dryRun = true\<close>, the report's mode is \<open>dry-run\<close> and the store, with its log of recording
  calls, is left as it was.
\<close>

theorem omitted_dryRun_means_apply:
  "dryRun request = None \<Longrightarrow>
   backfillAgentMemory env store agentId request st
     = backfillAgentMemory env store agentId (request\<lparr>dryRun := Some False\<rparr>) st \<and>
   (\<forall>r. fst (backfillAgentMemory env store agentId request st) = Inr r \<longrightarrow> mode r = Apply) \<and>
   dryRun (routeRequest request) = Some True \<and>
   (\<forall>r. fst (backfillAgentMemory env store agentId (routeRequest request) st) = Inr r \<longrightarrow> mode r = DryRun) \<and>
   snd (backfillAgentMemory env store agentId (routeRequest request) st) = st"
proof -
  assume n: "dryRun request = None"
  then have e: "backfillAgentMemory env store agentId request st
     = backfillAgentMemory env store agentId (request\<lparr>dryRun := Some False\<rparr>) st"
    by (simp add: backfillAgentMemory_def requestedSources_def requestedMaxFiles_def)
  have m: "\<forall>r. fst (backfillAgentMemory env store agentId request st) = Inr r \<longrightarrow> mode r = Apply"
    using backfill_mode [of env store agentId request st] n by simp
  have d: "dryRun (routeRequest request) = Some True" using n by (simp add: routeRequest_def)
  have m': "\<forall>r. fst (backfillAgentMemory env store agentId (routeRequest request) st) = Inr r \<longrightarrow> mode r = DryRun"
    using backfill_mode [of env store agentId "routeRequest request" st] d by simp
  show ?thesis using e m d m' backfill_dry_state [OF d] by blast
qed

text \<open>
  On the concrete installation, the request with every field omitted returns a report
  of mode \<open>apply\<close> after three recording calls.
\<close>

theorem omitted_dryRun_means_apply_counterexample:
  "dryRun emptyRequest = None \<and>
   \<not> isl (fst (backfillAgentMemory exampleEnv keyedStore ''agent-1'' emptyRequest emptyState)) \<and>
   mode (projr (fst (backfillAgentMemory exampleEnv keyedStore ''agent-1'' emptyRequest emptyState))) = Apply \<and>
   length (calls (snd (backfillAgentMemory exampleEnv keyedStore ''agent-1'' emptyRequest emptyState))) = 3"
  by code_simp

theorem omitted_dryRun_means_apply_witness:
  "dryRun emptyRequest = None \<and>
   backfillAgentMemory exampleEnv keyedStore ''agent-1'' emptyRequest emptyState
     = backfillAgentMemory exampleEnv keyedStore ''agent-1'' (emptyRequest\<lparr>dryRun := Some False\<rparr>) emptyState \<and>
   snd (backfillAgentMemory exampleEnv keyedStore ''agent-1'' (routeRequest emptyRequest) emptyState) = emptyState"
proof -
  have h: "dryRun emptyRequest = None" by (simp add: emptyRequest_def)
  from omitted_dryRun_means_apply [OF h, of exampleEnv keyedStore "''agent-1''" emptyState] h
  show ?thesis by blast
qed

subsection \<open>Running twice\<close>

lemma path_normalize_nonempty: "path_normalize p \<noteq> []"
  by (simp add: path_normalize_def Let_def)

lemma path_join_nonempty: "path_join args \<noteq> []"
  by (simp add: path_join_def Let_def path_normalize_nonempty)

lemma visitItem_files:
  "\<forall>f\<in>set (snd acc). f \<noteq> [] \<Longrightarrow> \<forall>f\<in>set (snd (foldl (visitItem current) acc items)). f \<noteq> []"
proof (induction items arbitrary: acc)
  case Nil
  then show ?case by simp
next
  case (Cons entry items)
  have "\<forall>f\<in>set (snd (visitItem current acc entry)). f \<noteq> []"
    using Cons.prems
    by (auto simp: visitItem_def Let_def path_join_nonempty split: prod.splits if_splits)
  from Cons.IH [OF this] show ?case by simp
qed

lemma walkStack_files:
  "\<forall>f\<in>set files. f \<noteq> [] \<Longrightarrow> \<forall>f\<in>set (walkStack stack files). f \<noteq> []"
proof (induction stack files rule: walkStack.induct)
  case (1 stack files)
  show ?case
  proof (cases "stack = []")
    case True
    with "1.prems" show ?thesis by (subst walkStack.simps) (simp del: walkStack.simps)
  next
    case ne: False
    show ?thesis
    proof (cases "snd (last stack)")
      case (Directory items)
      let ?acc = "foldl (visitItem (fst (last stack))) (butlast stack, files) items"
      have "\<forall>f\<in>set (snd ?acc). f \<noteq> []"
        using visitItem_files [of "(butlast stack, files)"] "1.prems" by simp
      from "1.IH"(1) [OF ne Directory refl this] ne Directory show ?thesis
        by (subst walkStack.simps) (simp add: Let_def del: walkStack.simps)
    next
      case UnreadableDirectory
      from "1.IH"(2) [OF ne UnreadableDirectory "1.prems"] ne UnreadableDirectory show ?thesis
        by (subst walkStack.simps) (simp del: walkStack.simps)
    next
      case RegularFile
      from "1.IH"(3) [OF ne RegularFile "1.prems"] ne RegularFile show ?thesis
        by (subst walkStack.simps) (simp del: walkStack.simps)
    next
      case StatFails
      from "1.IH"(4) [OF ne StatFails "1.prems"] ne StatFails show ?thesis
        by (subst walkStack.simps) (simp del: walkStack.simps)
    qed
  qed
qed

lemma findJsonlFiles_nonempty: "f \<in> set (findJsonlFiles env root) \<Longrightarrow> f \<noteq> []"
proof -
  assume a: "f \<in> set (findJsonlFiles env root)"
  then obtain node where "f \<in> set (walkStack [(root, node)] [])"
    by (auto simp: findJsonlFiles_def simp del: walkStack.simps split: option.splits)
  with walkStack_files [of "[]" "[(root, node)]"] show ?thesis by simp
qed

lemma discovered_file_nonempty:
  "c \<in> set (discoverConversations env srcs) \<Longrightarrow> jsonlFile c \<noteq> []"
proof -
  assume "c \<in> set (discoverConversations env srcs)"
  then obtain root src where "c \<in> set (discoverConversationsFromFiles env (findJsonlFiles env root) src)"
    by (auto simp: discoverConversations_def Let_def split: if_splits)
  then have "jsonlFile c \<in> set (findJsonlFiles env root)" using discoverFromFiles_member by blast
  then show ?thesis by (rule findJsonlFiles_nonempty)
qed

lemma set_setAdd: "set (setAdd xs x) = insert x (set xs)"
  by (auto simp: setAdd_def)

lemma rows_fold_set:
  "set (foldl addRow acc rows) = set acc \<union> {f. Some f \<in> set rows \<and> f \<noteq> []}"
proof (induction rows arbitrary: acc)
  case Nil
  then show ?case by simp
next
  case (Cons row rows)
  have "set (foldl addRow (addRow acc row) rows)
      = set (addRow acc row) \<union> {f. Some f \<in> set rows \<and> f \<noteq> []}"
    by (rule Cons.IH)
  moreover have "set (addRow acc row) = set acc \<union> {f. row = Some f \<and> f \<noteq> []}"
    by (cases row) (auto simp: addRow_def truthyStr_def set_setAdd)
  ultimately show ?case by auto
qed

lemma conversationFilesOf_keyed:
  "\<exists>ex. conversationFilesOf keyedStore d ps acc = Inr ex \<and>
        set ex = set acc \<union> {f. f \<noteq> [] \<and> (\<exists>c. (f, c) \<in> set (conversations_tbl d) \<and>
                                               cr_project_path c \<in> set ps)}"
proof (induction ps arbitrary: acc)
  case Nil
  then show ?case by simp
next
  case (Cons p ps)
  let ?rows = "map (\<lambda>row. Some (fst row))
                (filter (\<lambda>row. cr_project_path (snd row) = p) (conversations_tbl d))"
  let ?acc' = "foldl addRow acc ?rows"
  have g: "getConversations keyedStore d p = Inr ?rows" by (simp add: keyedStore_def)
  have s: "set ?acc' = set acc \<union> {f. f \<noteq> [] \<and> (\<exists>c. (f, c) \<in> set (conversations_tbl d) \<and> cr_project_path c = p)}"
    by (auto simp: rows_fold_set image_iff)
  from Cons [of ?acc'] obtain ex where
    "conversationFilesOf keyedStore d ps ?acc' = Inr ex"
    "set ex = set ?acc' \<union> {f. f \<noteq> [] \<and> (\<exists>c. (f, c) \<in> set (conversations_tbl d) \<and> cr_project_path c \<in> set ps)}"
    by blast
  then show ?case using g s by auto
qed

lemma lookup_keyed:
  "\<exists>ex. getExistingConversationFiles keyedStore d = Inr ex \<and> set ex = lookupSet d"
proof -
  have "getProjects keyedStore d = Inr (map fst (projects_tbl d))" by (simp add: keyedStore_def)
  then show ?thesis
    using conversationFilesOf_keyed [of d "map fst (projects_tbl d)" "[]"]
    by (auto simp: getExistingConversationFiles_def lookupSet_def)
qed

lemma upsert_keys: "fst ` set (upsert k v xs) = insert k (fst ` set xs)"
proof (induction xs)
  case Nil
  then show ?case by simp
next
  case (Cons x xs)
  then show ?case by (cases x) (auto simp: image_iff)
qed

lemma upsert_member: "(k, v) \<in> set (upsert k v xs)"
  by (induction xs) auto

lemma upsert_other: "(k', v') \<in> set xs \<Longrightarrow> k' \<noteq> k \<Longrightarrow> (k', v') \<in> set (upsert k v xs)"
  by (induction xs) auto

lemma lookupSet_project:
  "lookupSet d \<subseteq> lookupSet (d\<lparr>projects_tbl := upsert k p (projects_tbl d)\<rparr>)"
  by (auto simp: lookupSet_def upsert_keys)

lemma lookupSet_conversation:
  assumes "cr_project_path c \<in> fst ` set (projects_tbl d)" "f \<noteq> []"
  shows "insert f (lookupSet d) \<subseteq> lookupSet (d\<lparr>conversations_tbl := upsert f c (conversations_tbl d)\<rparr>)"
proof
  fix g assume g: "g \<in> insert f (lookupSet d)"
  show "g \<in> lookupSet (d\<lparr>conversations_tbl := upsert f c (conversations_tbl d)\<rparr>)"
  proof (cases "g = f")
    case True
    then show ?thesis using assms upsert_member [of f c "conversations_tbl d"]
      by (auto simp: lookupSet_def)
  next
    case False
    with g obtain c' where "g \<noteq> []" "(g, c') \<in> set (conversations_tbl d)"
      "cr_project_path c' \<in> fst ` set (projects_tbl d)"
      by (auto simp: lookupSet_def)
    then show ?thesis using False upsert_other [of g c' "conversations_tbl d" f c]
      by (auto simp: lookupSet_def)
  qed
qed

lemma performWrite_keyed_project:
  "performWrite keyedStore (RecordProject p) st
     = (None, \<lparr>db = (db st)\<lparr>projects_tbl := upsert (project_path p) p (projects_tbl (db st))\<rparr>,
               calls = calls st @ [(RecordProject p, None)]\<rparr>)"
  by (simp add: performWrite_def applyWrite_def keyedStore_def)

lemma performWrite_keyed_conversation:
  "performWrite keyedStore (RecordConversation c) st
     = (None, \<lparr>db = (db st)\<lparr>conversations_tbl := upsert (jsonl_file c) c (conversations_tbl (db st))\<rparr>,
               calls = calls st @ [(RecordConversation c, None)]\<rparr>)"
  by (simp add: performWrite_def applyWrite_def keyedStore_def)

lemma performWrite_keyed_session:
  "performWrite keyedStore (RecordSession s) st
     = (None, \<lparr>db = (db st)\<lparr>sessions_tbl := upsert (session_id s) s (sessions_tbl (db st))\<rparr>,
               calls = calls st @ [(RecordSession s, None)]\<rparr>)"
  by (simp add: performWrite_def applyWrite_def keyedStore_def)

lemma insertLoop_keyed:
  "\<forall>i\<in>set items. truthyStr (cwd i) \<and> jsonlFile i \<noteq> [] \<Longrightarrow>
   \<exists>st'. insertLoop keyedStore False ex items r st = (Inr (tally ex r items), st') \<and>
         lookupSet (db st) \<union> {jsonlFile i | i. i \<in> set items \<and> jsonlFile i \<notin> set ex}
           \<subseteq> lookupSet (db st')"
proof (induction items arbitrary: r st)
  case Nil
  then show ?case by (simp add: tally_def)
next
  case (Cons item items)
  then have rest: "\<forall>i\<in>set items. truthyStr (cwd i) \<and> jsonlFile i \<noteq> []"
    and it: "truthyStr (cwd item)" "jsonlFile item \<noteq> []" by auto
  show ?case
  proof (cases "jsonlFile item \<in> set ex")
    case True
    from Cons.IH [OF rest, of "countExisting r item" st] True show ?thesis
      by (auto simp: tally_def)
  next
    case False
    let ?d1 = "(db st)\<lparr>projects_tbl := upsert (project_path (projectRecordOf item)) (projectRecordOf item)
                 (projects_tbl (db st))\<rparr>"
    let ?d2 = "?d1\<lparr>conversations_tbl := upsert (jsonl_file (conversationRecordOf item))
                 (conversationRecordOf item) (conversations_tbl ?d1)\<rparr>"
    let ?st2 = "\<lparr>db = ?d2, calls = (calls st @ [(RecordProject (projectRecordOf item), None)])
                    @ [(RecordConversation (conversationRecordOf item), None)]\<rparr>"
    have step: "insertLoop keyedStore False ex (item # items) r st
        = insertLoop keyedStore False ex items (countInserted r item) ?st2"
      using False it by (simp add: performWrite_keyed_project performWrite_keyed_conversation)
    have "cr_project_path (conversationRecordOf item) \<in> fst ` set (projects_tbl ?d1)"
      by (simp add: upsert_keys conversationRecordOf_def projectRecordOf_def)
    moreover have "jsonl_file (conversationRecordOf item) = jsonlFile item"
      by (simp add: conversationRecordOf_def)
    ultimately have "insert (jsonlFile item) (lookupSet ?d1) \<subseteq> lookupSet ?d2"
      using lookupSet_conversation [of "conversationRecordOf item" ?d1 "jsonlFile item"] it by simp
    then have grow: "insert (jsonlFile item) (lookupSet (db st)) \<subseteq> lookupSet ?d2"
      using lookupSet_project [of "db st" "project_path (projectRecordOf item)" "projectRecordOf item"]
      by blast
    from Cons.IH [OF rest, of "countInserted r item" ?st2] obtain st' where
      "insertLoop keyedStore False ex items (countInserted r item) ?st2
         = (Inr (tally ex (countInserted r item) items), st')"
      "lookupSet (db ?st2) \<union> {jsonlFile i | i. i \<in> set items \<and> jsonlFile i \<notin> set ex} \<subseteq> lookupSet (db st')"
      by blast
    then show ?thesis using step grow False by (auto simp: tally_def)
  qed
qed

lemma insertLoop_all_existing:
  "\<forall>i\<in>set items. jsonlFile i \<in> set ex \<Longrightarrow>
   insertLoop store isDryRun ex items r st = (Inr (tally ex r items), st)"
  by (induction items arbitrary: r) (simp_all add: tally_def)

lemma sessionLoop_keyed:
  "fst (sessionLoop env keyedStore agentId applyWrites sessions acc st)
     = fst (sessionLoop env keyedStore agentId applyWrites sessions acc st0) \<and>
   projects_tbl (db (snd (sessionLoop env keyedStore agentId applyWrites sessions acc st)))
     = projects_tbl (db st) \<and>
   conversations_tbl (db (snd (sessionLoop env keyedStore agentId applyWrites sessions acc st)))
     = conversations_tbl (db st)"
proof (induction sessions arbitrary: acc st st0)
  case Nil
  then show ?case by simp
next
  case (Cons s sessions)
  show ?case
  proof (cases s)
    case None
    then show ?thesis by simp
  next
    case (Some session)
    show ?thesis
    proof (cases "ls_agentId session \<noteq> agentId \<or> \<not> applyWrites")
      case True
      then show ?thesis using Some Cons [of _ st st0] by auto
    next
      case False
      let ?w = "sessionRecordOf env agentId session"
      let ?up = "\<lambda>st. \<lparr>db = (db st)\<lparr>sessions_tbl := upsert (session_id ?w) ?w (sessions_tbl (db st))\<rparr>,
               calls = calls st @ [(RecordSession ?w, None)]\<rparr>"
      from False Some have
        "sessionLoop env keyedStore agentId applyWrites (s # sessions) acc st
           = sessionLoop env keyedStore agentId applyWrites sessions (noteSession acc session) (?up st)"
        "sessionLoop env keyedStore agentId applyWrites (s # sessions) acc st0
           = sessionLoop env keyedStore agentId applyWrites sessions (noteSession acc session) (?up st0)"
        by (simp_all add: performWrite_keyed_session)
      then show ?thesis using Cons [of "noteSession acc session" "?up st" "?up st0"] by simp
    qed
  qed
qed

lemma fetch_keyed:
  "fst (fetchWorkingDirectoriesForAgent env keyedStore agentId applyWrites st)
     = fst (fetchWorkingDirectoriesForAgent env keyedStore agentId applyWrites st0) \<and>
   projects_tbl (db (snd (fetchWorkingDirectoriesForAgent env keyedStore agentId applyWrites st)))
     = projects_tbl (db st) \<and>
   conversations_tbl (db (snd (fetchWorkingDirectoriesForAgent env keyedStore agentId applyWrites st)))
     = conversations_tbl (db st)"
proof (cases "liveSessions env")
  case (Listing sessions)
  then show ?thesis
    using sessionLoop_keyed [of env agentId applyWrites sessions _ st st0]
    by (simp add: fetchWorkingDirectoriesForAgent_def Let_def)
qed (simp_all add: fetchWorkingDirectoriesForAgent_def Let_def)

lemma lookupSet_cong:
  "projects_tbl d = projects_tbl d' \<Longrightarrow> conversations_tbl d = conversations_tbl d' \<Longrightarrow>
   lookupSet d = lookupSet d'"
  by (simp add: lookupSet_def)

lemma filter_all_length: "\<forall>x\<in>set xs. P x \<Longrightarrow> length (filter P xs) = length xs"
  by (induction xs) simp_all

lemma filter_none_length: "\<forall>x\<in>set xs. P x \<Longrightarrow> length (filter (\<lambda>x. \<not> P x) xs) = 0"
  by (induction xs) simp_all

text \<open>
  C3. With the store whose recording functions are upserts by key, and with the file
  system, the registry and the live inventory unchanged, run the engine twice in apply
  mode, the second time on the store the first run left. Both runs return a report; the
  second one inserts nothing (\<open>total_inserted = 0\<close>, and \<open>inserted = 0\<close> for each source),
  and it counts as existing every transcript the first run counted as existing or as
  inserted. The second run leaves the project and conversation tables as it found them.
\<close>

theorem second_apply_run_inserts_nothing:
  "dryRun request \<noteq> Some True \<Longrightarrow>
   backfillAgentMemory env keyedStore agentId request st = (out1, st1) \<Longrightarrow>
   backfillAgentMemory env keyedStore agentId request st1 = (out2, st2) \<Longrightarrow>
   \<exists>r1 r2. out1 = Inr r1 \<and> out2 = Inr r2 \<and>
     total_inserted r2 = 0 \<and> (\<forall>src. inserted (sources r2 src) = 0) \<and>
     total_existing r2 = total_existing r1 + total_inserted r1 \<and>
     (\<forall>src. existing (sources r2 src) = existing (sources r1 src) + inserted (sources r1 src)) \<and>
     total_matched r2 = total_matched r1 \<and>
     projects_tbl (db st2) = projects_tbl (db st1) \<and>
     conversations_tbl (db st2) = conversations_tbl (db st1)"
proof -
  assume ap: "dryRun request \<noteq> Some True"
    and run1: "backfillAgentMemory env keyedStore agentId request st = (out1, st1)"
    and run2: "backfillAgentMemory env keyedStore agentId request st1 = (out2, st2)"
  let ?found = "resolverResult env keyedStore agentId request st"
  let ?sta = "lookupState env keyedStore agentId request st"
  let ?stb = "lookupState env keyedStore agentId request st1"
  let ?wds = "workingDirectories ?found"
  let ?items = "classifiedItems env request"
  let ?rb = "reportBeforeMatching env agentId request ?found"
  let ?cls = "matchLoop ?wds ?items (?rb, [])"
  let ?r0 = "fst ?cls"
  let ?ms = "map withNormalizedCwd (filter (isMatched ?wds) ?items)"
  have ms: "snd ?cls = ?ms" by (simp add: matchLoop_items)
  have found2: "resolverResult env keyedStore agentId request st1 = ?found"
    using fetch_keyed [of env agentId "dryRun request \<noteq> Some True" st1 st]
    by (simp add: resolverResult_def)
  have tables: "projects_tbl (db ?stb) = projects_tbl (db st1)"
      "conversations_tbl (db ?stb) = conversations_tbl (db st1)"
    using fetch_keyed [of env agentId "dryRun request \<noteq> Some True" st1 st1]
    by (simp_all add: lookupState_def)
  have good: "\<forall>i\<in>set ?ms. truthyStr (cwd i) \<and> jsonlFile i \<noteq> []"
  proof
    fix i assume "i \<in> set ?ms"
    then obtain x where x: "x \<in> set ?items" "isMatched ?wds x" "i = withNormalizedCwd x" by auto
    from x(1) have "x \<in> set (discoverConversations env (requestedSources request))"
      unfolding classifiedItems_def by (rule in_set_takeD)
    then have "jsonlFile x \<noteq> []" by (rule discovered_file_nonempty)
    with x(2,3) show "truthyStr (cwd i) \<and> jsonlFile i \<noteq> []"
      by (simp add: withNormalizedCwd_def isMatched_def)
  qed
  obtain ex1 where ex1: "getExistingConversationFiles keyedStore (db ?sta) = Inr ex1"
      "set ex1 = lookupSet (db ?sta)"
    using lookup_keyed by blast
  obtain ex2 where ex2: "getExistingConversationFiles keyedStore (db ?stb) = Inr ex2"
      "set ex2 = lookupSet (db ?stb)"
    using lookup_keyed by blast
  have loop1: "insertLoop keyedStore False ex1 ?ms ?r0 ?sta = (out1, st1)"
    using run1 ex1(1) ap ms
    by (simp add: backfill_stages lookupState_def resolverResult_def Let_def)
  from insertLoop_keyed [OF good, of ex1 ?r0 ?sta] loop1
  have out1: "out1 = Inr (tally ex1 ?r0 ?ms)"
    and grow: "lookupSet (db ?sta) \<union> {jsonlFile i | i. i \<in> set ?ms \<and> jsonlFile i \<notin> set ex1}
                 \<subseteq> lookupSet (db st1)"
    by auto
  have "lookupSet (db ?stb) = lookupSet (db st1)"
    using tables by (intro lookupSet_cong) simp_all
  then have sub: "set ex1 \<union> {jsonlFile i | i. i \<in> set ?ms \<and> jsonlFile i \<notin> set ex1} \<subseteq> set ex2"
    using grow ex1(2) ex2(2) by simp
  have all: "\<forall>i\<in>set ?ms. jsonlFile i \<in> set ex2"
  proof
    fix i assume i: "i \<in> set ?ms"
    show "jsonlFile i \<in> set ex2"
    proof (cases "jsonlFile i \<in> set ex1")
      case True
      with sub show ?thesis by blast
    next
      case False
      with i have "jsonlFile i \<in> {jsonlFile i | i. i \<in> set ?ms \<and> jsonlFile i \<notin> set ex1}" by blast
      with sub show ?thesis by blast
    qed
  qed
  have loop2: "insertLoop keyedStore False ex2 ?ms ?r0 ?stb = (out2, st2)"
    using run2 ex2(1) ap ms found2
    by (simp add: backfill_stages lookupState_def resolverResult_def Let_def)
  with insertLoop_all_existing [OF all, of keyedStore False ?r0 ?stb]
  have out2: "out2 = Inr (tally ex2 ?r0 ?ms)" and st2: "st2 = ?stb" by simp_all
  let ?r1 = "tally ex1 ?r0 ?ms"
  let ?r2 = "tally ex2 ?r0 ?ms"
  have allsrc: "\<forall>i\<in>set (ofSource src ?ms). jsonlFile i \<in> set ex2" for src
    using all by (auto simp: ofSource_def)
  have i2: "inserted (sources ?r2 src) = 0" for src
    using filter_none_length [OF allsrc [of src]]
    by (simp add: tally_fields matchLoop_fields reportBeforeMatching_fields)
  have ti2: "total_inserted ?r2 = 0"
    using filter_none_length [OF all]
    by (simp add: tally_fields matchLoop_fields reportBeforeMatching_fields)
  have e2: "existing (sources ?r2 src) = length (ofSource src ?ms)" for src
    using filter_all_length [OF allsrc [of src]]
    by (simp add: tally_fields matchLoop_fields reportBeforeMatching_fields)
  have te2: "total_existing ?r2 = length ?ms"
    using filter_all_length [OF all]
    by (simp add: tally_fields matchLoop_fields reportBeforeMatching_fields)
  have e1: "existing (sources ?r1 src) + inserted (sources ?r1 src) = length (ofSource src ?ms)" for src
    using sum_length_filter_compl [of "\<lambda>i. jsonlFile i \<in> set ex1" "ofSource src ?ms"]
    by (simp add: tally_fields matchLoop_fields reportBeforeMatching_fields)
  have te1: "total_existing ?r1 + total_inserted ?r1 = length ?ms"
    using sum_length_filter_compl [of "\<lambda>i. jsonlFile i \<in> set ex1" ?ms]
    by (simp add: tally_fields matchLoop_fields reportBeforeMatching_fields)
  have tm: "total_matched ?r2 = total_matched ?r1"
    by (simp add: tally_fields)
  show ?thesis
    using out1 out2 i2 ti2 e2 te2 e1 te1 tm tables st2 by simp
qed

theorem second_apply_run_inserts_nothing_witness:
  "dryRun emptyRequest \<noteq> Some True \<and>
   \<not> isl (fst (backfillAgentMemory exampleEnv keyedStore ''agent-1'' emptyRequest emptyState)) \<and>
   total_inserted (projr (fst (backfillAgentMemory exampleEnv keyedStore ''agent-1'' emptyRequest emptyState))) = 1 \<and>
   \<not> isl (fst (backfillAgentMemory exampleEnv keyedStore ''agent-1'' emptyRequest
             (snd (backfillAgentMemory exampleEnv keyedStore ''agent-1'' emptyRequest emptyState)))) \<and>
   total_inserted (projr (fst (backfillAgentMemory exampleEnv keyedStore ''agent-1'' emptyRequest
             (snd (backfillAgentMemory exampleEnv keyedStore ''agent-1'' emptyRequest emptyState))))) = 0 \<and>
   total_existing (projr (fst (backfillAgentMemory exampleEnv keyedStore ''agent-1'' emptyRequest
             (snd (backfillAgentMemory exampleEnv keyedStore ''agent-1'' emptyRequest emptyState))))) = 1"
proof -
  let ?R1 = "backfillAgentMemory exampleEnv keyedStore ''agent-1'' emptyRequest emptyState"
  let ?R2 = "backfillAgentMemory exampleEnv keyedStore ''agent-1'' emptyRequest (snd ?R1)"
  have h: "dryRun emptyRequest \<noteq> Some True" by (simp add: emptyRequest_def)
  have run1: "?R1 = (fst ?R1, snd ?R1)" by simp
  have run2: "?R2 = (fst ?R2, snd ?R2)" by simp
  have first: "total_inserted (projr (fst ?R1)) = 1 \<and> total_existing (projr (fst ?R1)) = 0" by code_simp
  from second_apply_run_inserts_nothing [OF h run1 run2] obtain r1 r2 where
    "fst ?R1 = Inr r1" "fst ?R2 = Inr r2" "total_inserted r2 = 0"
    "total_existing r2 = total_existing r1 + total_inserted r1" by blast
  then show ?thesis using h first by simp
qed

subsection \<open>Order of the two timestamps of a conversation\<close>

lemma lineTimestamps_append:
  "lineTimestamps parse date (xs @ ys) = lineTimestamps parse date xs @ lineTimestamps parse date ys"
  by (simp add: lineTimestamps_def map_filter_def)

lemma lineTimestamps_set:
  "set (lineTimestamps parse date lines) = {t. \<exists>line\<in>set lines. lineTimestamp parse date line = Some t}"
  by (force simp: lineTimestamps_def map_filter_def image_iff)

lemma keepEarliest_choice: "keepEarliest cur ts = cur \<or> keepEarliest cur ts = ts"
  by (simp add: keepEarliest_def)

lemma claude_fold_first_origin:
  "firstMessageAt (fst (foldl (claudeMetadataLine parse date) acc lines)) = Some a \<Longrightarrow>
   firstMessageAt (fst acc) = Some a \<or> (\<exists>line\<in>set lines. lineTimestamp parse date line = Some a)"
proof (induction lines arbitrary: acc)
  case Nil
  then show ?case by simp
next
  case (Cons line lines)
  obtain c m where acc: "acc = (c, m)" by (cases acc)
  let ?acc' = "claudeMetadataLine parse date acc line"
  from Cons.prems have "firstMessageAt (fst (foldl (claudeMetadataLine parse date) ?acc' lines)) = Some a"
    by simp
  from Cons.IH [OF this]
  consider "firstMessageAt (fst ?acc') = Some a" | "\<exists>l\<in>set lines. lineTimestamp parse date l = Some a"
    by blast
  then show ?case
  proof cases
    case 1
    then have "keepEarliest (firstMessageAt c) (lineTimestamp parse date line) = Some a"
      by (simp add: acc claudeMetadataLine_first)
    then show ?thesis
      using keepEarliest_choice [of "firstMessageAt c" "lineTimestamp parse date line"] acc by auto
  next
    case 2
    then show ?thesis by auto
  qed
qed

lemma sorted_hd_least: "sorted zs \<Longrightarrow> z \<in> set zs \<Longrightarrow> hd zs \<le> (z::int)"
  by (cases zs) auto

lemma claude_ordered_in_order:
  assumes srt: "sorted (lineTimestamps parse date lines)"
    and fa: "firstMessageAt (extractConversationFromClaudeLines parse date lines f) = Some a"
    and lb: "lastMessageAt (extractConversationFromClaudeLines parse date lines f) = Some b"
  shows "a \<le> b"
proof -
  let ?head = "take 80 lines"
  let ?acc = "foldl (claudeMetadataLine parse date) (blankConversation claude f (length lines), []) ?head"
  have first: "firstMessageAt (fst ?acc) = Some a"
    using fa by (simp add: extractConversationFromClaudeLines_def case_prod_beta Let_def)
  from claude_fold_first_origin [OF first]
  have "\<exists>line\<in>set ?head. lineTimestamp parse date line = Some a"
    by (simp add: blankConversation_def)
  then have ne: "lineTimestamps parse date ?head \<noteq> []"
    using lineTimestamps_set [of parse date ?head] by auto
  let ?t0 = "hd (lineTimestamps parse date ?head)"
  from ne have "?t0 \<in> set (lineTimestamps parse date ?head)" by simp
  then have "\<exists>line\<in>set ?head. lineTimestamp parse date line = Some ?t0"
    by (simp add: lineTimestamps_set)
  then obtain m where "firstMessageAt (fst ?acc) = Some m" "m \<le> ?t0"
    using claude_fold_first [of ?head parse date ?t0] by blast
  with first have a0: "a \<le> ?t0" by simp
  have whole: "lineTimestamps parse date lines
      = lineTimestamps parse date ?head @ lineTimestamps parse date (drop 80 lines)"
    using lineTimestamps_append [of parse date ?head "drop 80 lines"] by simp
  then have hd0: "hd (lineTimestamps parse date lines) = ?t0" using ne by simp
  have "claudeLastTimestamp parse date (rev (drop (length lines - 50) lines)) = Some b"
    using lb by (simp add: extractConversationFromClaudeLines_def case_prod_beta Let_def)
  then obtain line where "line \<in> set (drop (length lines - 50) lines)" "lineTimestamp parse date line = Some b"
    using claudeLastTimestamp_from_line by fastforce
  then have "\<exists>line\<in>set lines. lineTimestamp parse date line = Some b"
    using set_drop_subset by fastforce
  then have "b \<in> set (lineTimestamps parse date lines)" by (simp add: lineTimestamps_set)
  from sorted_hd_least [OF srt this] hd0 a0 show ?thesis by simp
qed

text \<open>
  C7. The extractor for the second source keeps a running minimum and maximum over all
  lines, so whenever both timestamps are present \<open>firstMessageAt \<le> lastMessageAt\<close>, for
  every transcript. The extractor for the first source takes the minimum over the first
  80 lines and the last timestamp among the last 50 lines. There the order holds
  whenever the transcript has at most 80 lines, and also, at any length, whenever the
  timestamps of its lines (\<open>lineTimestamps\<close>, in file order) never decrease.
\<close>

theorem extractors_first_le_last:
  "(\<forall>a b. firstMessageAt (extractConversationFromCodexLines parse date lines file) = Some a \<and>
          lastMessageAt (extractConversationFromCodexLines parse date lines file) = Some b \<longrightarrow> a \<le> b) \<and>
   (length lines \<le> 80 \<or> sorted (lineTimestamps parse date lines) \<longrightarrow>
    (\<forall>a b. firstMessageAt (extractConversationFromClaudeLines parse date lines file) = Some a \<and>
           lastMessageAt (extractConversationFromClaudeLines parse date lines file) = Some b \<longrightarrow> a \<le> b))"
  using codex_ordered [of parse date lines "file"] claude_ordered [of lines parse date "file"]
    claude_ordered_in_order [of parse date lines "file"]
  by (auto simp: tsInv_def)

text \<open>
  For a transcript of the first source that is longer than 80 lines and whose timestamps
  are out of file order the order can fail: eighty lines stamped at second 2 followed by
  one line stamped at second 1 give \<open>firstMessageAt = 2000\<close> and
  \<open>lastMessageAt = 1000\<close>.
\<close>

theorem extractors_first_le_last_counterexample:
  "firstMessageAt (extractConversationFromClaudeLines exampleParse exampleDate
       (replicate 80 lineLate @ [lineEarly]) ''/t.jsonl'') = Some 2000 \<and>
   lastMessageAt (extractConversationFromClaudeLines exampleParse exampleDate
       (replicate 80 lineLate @ [lineEarly]) ''/t.jsonl'') = Some 1000"
  by code_simp

text \<open>
  A transcript of 82 lines in file order, 41 stamped at second 1 and then 41 stamped at
  second 2: both extractors report 1000 and 2000.
\<close>

theorem extractors_first_le_last_witness:
  "80 < length (replicate 41 lineEarly @ replicate 41 lineLate) \<and>
   sorted (lineTimestamps exampleParse exampleDate (replicate 41 lineEarly @ replicate 41 lineLate)) \<and>
   firstMessageAt (extractConversationFromCodexLines exampleParse exampleDate
       (replicate 41 lineEarly @ replicate 41 lineLate) ''/t.jsonl'') = Some 1000 \<and>
   lastMessageAt (extractConversationFromCodexLines exampleParse exampleDate
       (replicate 41 lineEarly @ replicate 41 lineLate) ''/t.jsonl'') = Some 2000 \<and>
   firstMessageAt (extractConversationFromClaudeLines exampleParse exampleDate
       (replicate 41 lineEarly @ replicate 41 lineLate) ''/t.jsonl'') = Some 1000 \<and>
   lastMessageAt (extractConversationFromClaudeLines exampleParse exampleDate
       (replicate 41 lineEarly @ replicate 41 lineLate) ''/t.jsonl'') = Some 2000 \<and>
   (1000::int) \<le> 2000"
proof -
  let ?lines = "replicate 41 lineEarly @ replicate 41 lineLate"
  have long: "80 < length ?lines" by simp
  have srt: "sorted (lineTimestamps exampleParse exampleDate ?lines)" by code_simp
  have e: "firstMessageAt (extractConversationFromCodexLines exampleParse exampleDate ?lines ''/t.jsonl'') = Some 1000 \<and>
   lastMessageAt (extractConversationFromCodexLines exampleParse exampleDate ?lines ''/t.jsonl'') = Some 2000 \<and>
   firstMessageAt (extractConversationFromClaudeLines exampleParse exampleDate ?lines ''/t.jsonl'') = Some 1000 \<and>
   lastMessageAt (extractConversationFromClaudeLines exampleParse exampleDate ?lines ''/t.jsonl'') = Some 2000"
    by code_simp
  from extractors_first_le_last [of exampleParse exampleDate ?lines "''/t.jsonl''"] long srt e
  show ?thesis by auto
qed

subsection \<open>Transcripts without a visible character\<close>

lemma trim_empty_iff: "trim line = [] \<longleftrightarrow> (\<forall>ch\<in>set line. isWhiteSpace ch)"
proof
  assume "trim line = []"
  then have "dropWhile isWhiteSpace (rev (dropWhile isWhiteSpace line)) = []"
    by (simp add: trim_def)
  then have all: "\<forall>ch\<in>set (dropWhile isWhiteSpace line). isWhiteSpace ch"
    by simp
  have "dropWhile isWhiteSpace line = []"
  proof (rule ccontr)
    assume ne: "dropWhile isWhiteSpace line \<noteq> []"
    then have "\<not> isWhiteSpace (hd (dropWhile isWhiteSpace line))" by (rule hd_dropWhile)
    moreover have "hd (dropWhile isWhiteSpace line) \<in> set (dropWhile isWhiteSpace line)"
      using ne by simp
    ultimately show False using all by blast
  qed
  then show "\<forall>ch\<in>set line. isWhiteSpace ch" by simp
next
  assume "\<forall>ch\<in>set line. isWhiteSpace ch"
  then have "dropWhile isWhiteSpace line = []" by simp
  then show "trim line = []" by (auto simp: trim_def dest: set_dropWhileD)
qed

lemma withUnreadable_fields:
  "JSON_parse (withUnreadable env f) = JSON_parse env"
  "Date_parse (withUnreadable env f) = Date_parse env"
  "homedir (withUnreadable env f) = homedir env"
  "treeAt (withUnreadable env f) = treeAt env"
  "getAgent (withUnreadable env f) = getAgent env"
  "getAgentBySession (withUnreadable env f) = getAgentBySession env"
  "liveSessions (withUnreadable env f) = liveSessions env"
  "readFileSync (withUnreadable env f) a = (if a = f then None else readFileSync env a)"
  by (simp_all add: withUnreadable_def)

lemma nonBlank_visible: "nonBlankLines raw = visibleLines raw"
proof -
  have "(length (trim line) > 0) = hasVisibleChar line" for line
    using trim_empty_iff [of line] by (auto simp: hasVisibleChar_def list_ex_iff)
  then show ?thesis by (simp add: nonBlankLines_def visibleLines_def)
qed

lemma discoverFromFiles_unreadable:
  "readFileSync env f = Some raw \<Longrightarrow> nonBlankLines raw = [] \<Longrightarrow>
   discoverConversationsFromFiles (withUnreadable env f) files src
     = discoverConversationsFromFiles env files src"
  by (induction files) (simp_all add: withUnreadable_fields Let_def split: option.splits)

lemma findJsonlFiles_unreadable: "findJsonlFiles (withUnreadable env f) root = findJsonlFiles env root"
  unfolding findJsonlFiles_def withUnreadable_fields ..

lemma discover_unreadable:
  "readFileSync env f = Some raw \<Longrightarrow> nonBlankLines raw = [] \<Longrightarrow>
   discoverConversations (withUnreadable env f) srcs = discoverConversations env srcs"
proof -
  assume a: "readFileSync env f = Some raw" "nonBlankLines raw = []"
  show ?thesis
    unfolding discoverConversations_def Let_def withUnreadable_fields findJsonlFiles_unreadable
      discoverFromFiles_unreadable [OF a] ..
qed

lemma sessionLoop_unreadable:
  "sessionLoop (withUnreadable env f) store agentId applyWrites sessions acc st
     = sessionLoop env store agentId applyWrites sessions acc st"
proof (induction sessions arbitrary: acc st)
  case Nil
  then show ?case by simp
next
  case (Cons s sessions)
  have r: "sessionRecordOf (withUnreadable env f) agentId session = sessionRecordOf env agentId session"
    for session by (simp add: sessionRecordOf_def withUnreadable_fields)
  show ?case using Cons
    by (cases s; cases applyWrites) (simp_all add: r split: prod.splits option.splits)
qed

lemma fetch_unreadable:
  "fetchWorkingDirectoriesForAgent (withUnreadable env f) store agentId applyWrites st
     = fetchWorkingDirectoriesForAgent env store agentId applyWrites st"
proof -
  have r: "registryDirectories (withUnreadable env f) agentId = registryDirectories env agentId"
    unfolding registryDirectories_def withUnreadable_fields ..
  show ?thesis
    unfolding fetchWorkingDirectoriesForAgent_def r withUnreadable_fields sessionLoop_unreadable ..
qed

lemma backfill_unreadable:
  assumes "readFileSync env f = Some raw" "nonBlankLines raw = []"
  shows "backfillAgentMemory (withUnreadable env f) store agentId request st
     = backfillAgentMemory env store agentId request st"
  unfolding backfillAgentMemory_def fetch_unreadable discover_unreadable [OF assms] ..

lemma pushExample_set: "set (pushExample target v) \<subseteq> insert v (set target)"
  by (auto simp: pushExample_def)

lemma tally_examples:
  "set (existing_examples (tally ex r items)) \<subseteq> set (existing_examples r) \<union> jsonlFile ` set items \<and>
   set (inserted_examples (tally ex r items)) \<subseteq> set (inserted_examples r) \<union> jsonlFile ` set items \<and>
   unmapped_examples (tally ex r items) = unmapped_examples r"
  unfolding tally_def
proof (induction items arbitrary: r)
  case Nil
  then show ?case by simp
next
  case (Cons item items)
  let ?r' = "if jsonlFile item \<in> set ex then countExisting r item else countInserted r item"
  have e: "set (existing_examples ?r') \<subseteq> insert (jsonlFile item) (set (existing_examples r))"
    using pushExample_set [of "existing_examples r" "jsonlFile item"]
    by (auto simp: countExisting_def countInserted_def bump_others Let_def)
  have i: "set (inserted_examples ?r') \<subseteq> insert (jsonlFile item) (set (inserted_examples r))"
    using pushExample_set [of "inserted_examples r" "jsonlFile item"]
    by (auto simp: countExisting_def countInserted_def bump_others Let_def)
  have u: "unmapped_examples ?r' = unmapped_examples r"
    by (simp add: countExisting_def countInserted_def bump_others Let_def)
  from Cons [of ?r'] e i u show ?case by auto
qed

lemma matchLoop_examples:
  "set (unmapped_examples (fst (matchLoop wds items (r, ms))))
     \<subseteq> set (unmapped_examples r) \<union> jsonlFile ` set items \<and>
   existing_examples (fst (matchLoop wds items (r, ms))) = existing_examples r \<and>
   inserted_examples (fst (matchLoop wds items (r, ms))) = inserted_examples r"
proof (induction items arbitrary: r ms)
  case Nil
  then show ?case by simp
next
  case (Cons item items)
  show ?case
  proof (cases "\<not> truthyStr (normalizedCwdOf item) \<or> the (normalizedCwdOf item) \<notin> set wds")
    case True
    let ?r' = "(bump (\<lambda>s. s\<lparr>unmapped := unmapped s + 1\<rparr>) (source item) r)
        \<lparr>total_unmapped := total_unmapped r + 1,
          unmapped_examples := pushExample (unmapped_examples r) (jsonlFile item)\<rparr>"
    have step: "matchLoop wds (item # items) (r, ms) = matchLoop wds items (?r', ms)"
      using True by (simp add: Let_def bump_others)
    have "set (unmapped_examples ?r') \<subseteq> insert (jsonlFile item) (set (unmapped_examples r))"
      using pushExample_set [of "unmapped_examples r" "jsonlFile item"] by simp
    with Cons [of ?r' ms] show ?thesis unfolding step by (auto simp: bump_others)
  next
    case False
    let ?r' = "(bump (\<lambda>s. s\<lparr>matched := matched s + 1\<rparr>) (source item) r)
        \<lparr>total_matched := total_matched r + 1\<rparr>"
    have step: "matchLoop wds (item # items) (r, ms)
        = matchLoop wds items (?r', ms @ [item\<lparr>cwd := normalizedCwdOf item\<rparr>])"
      using False by (simp add: Let_def bump_others)
    from Cons [of ?r' "ms @ [item\<lparr>cwd := normalizedCwdOf item\<rparr>]"] show ?thesis
      unfolding step by (auto simp: bump_others)
  qed
qed

lemma countDiscovered_examples:
  "unmapped_examples (foldl countDiscovered r items) = unmapped_examples r \<and>
   existing_examples (foldl countDiscovered r items) = existing_examples r \<and>
   inserted_examples (foldl countDiscovered r items) = inserted_examples r"
  by (induction items arbitrary: r) (simp_all add: countDiscovered_def bump_others)

lemma reportBeforeMatching_examples:
  "unmapped_examples (reportBeforeMatching env agentId request found) = [] \<and>
   existing_examples (reportBeforeMatching env agentId request found) = [] \<and>
   inserted_examples (reportBeforeMatching env agentId request found) = []"
  by (simp add: reportBeforeMatching_def Let_def countDiscovered_examples emptyReport_def)

lemma backfill_examples:
  assumes "fst (backfillAgentMemory env store agentId request st) = Inr r"
  shows "set (unmapped_examples r) \<union> set (existing_examples r) \<union> set (inserted_examples r)
     \<subseteq> jsonlFile ` set (discoverConversations env (requestedSources request))"
proof -
  let ?found = "resolverResult env store agentId request st"
  let ?wds = "workingDirectories ?found"
  let ?items = "classifiedItems env request"
  let ?rb = "reportBeforeMatching env agentId request ?found"
  let ?r0 = "fst (matchLoop ?wds ?items (?rb, []))"
  let ?ms = "map withNormalizedCwd (filter (isMatched ?wds) ?items)"
  from backfill_report [OF assms] obtain ex where r: "r = tally ex ?r0 ?ms" by blast
  have items: "set ?items \<subseteq> set (discoverConversations env (requestedSources request))"
    unfolding classifiedItems_def by (rule set_take_subset)
  have ms: "jsonlFile ` set ?ms \<subseteq> jsonlFile ` set ?items"
    by (auto simp: withNormalizedCwd_def image_iff)
  have u: "set (unmapped_examples r) \<subseteq> jsonlFile ` set ?items"
    using matchLoop_examples [of ?wds ?items ?rb "[]"] tally_examples [of ex ?r0 ?ms]
    by (simp add: r reportBeforeMatching_examples)
  have e: "set (existing_examples r) \<subseteq> jsonlFile ` set ?ms"
    using matchLoop_examples [of ?wds ?items ?rb "[]"] tally_examples [of ex ?r0 ?ms]
    by (simp add: r reportBeforeMatching_examples)
  have i: "set (inserted_examples r) \<subseteq> jsonlFile ` set ?ms"
    using matchLoop_examples [of ?wds ?items ?rb "[]"] tally_examples [of ex ?r0 ?ms]
    by (simp add: r reportBeforeMatching_examples)
  from u e i ms items show ?thesis by blast
qed

lemma backfill_total_discovered:
  assumes "fst (backfillAgentMemory env store agentId request st) = Inr r"
  shows "total_discovered r = length (discoverConversations env (requestedSources request)) \<and>
     (\<forall>src. discovered (sources r src)
        = length (ofSource src (discoverConversations env (requestedSources request))))"
proof -
  from backfill_report [OF assms] obtain ex ms where "r = tally ex (fst (matchLoop
     (workingDirectories (resolverResult env store agentId request st)) (classifiedItems env request)
     (reportBeforeMatching env agentId request (resolverResult env store agentId request st), []))) ms"
    by blast
  then show ?thesis
    by (simp add: tally_fields matchLoop_fields reportBeforeMatching_fields)
qed

text \<open>
  C10. The lines the scanner keeps are those with \<open>line.trim().length > 0\<close>, which are
  exactly the lines holding a character other than white space (\<open>visibleLines\<close>). A
  transcript without such a line is treated like a file that cannot be read: the whole
  run, report and store alike, is the run of the installation where that file is
  unreadable; scanning a file list with or without it gives the same conversations; no
  discovered conversation bears its path; the \<open>discovered\<close> total of a returned report
  counts only the conversations of other paths; and its path is in none of the three
  example lists. Every discovered conversation has \<open>messageCount \<ge> 1\<close>, equal to the
  number of lines of its file that hold a visible character.
\<close>

theorem blank_transcripts_are_not_discovered:
  "(readFileSync env f = Some raw \<and> visibleLines raw = [] \<longrightarrow>
      discoverConversationsFromFiles env (before @ f # after) src
        = discoverConversationsFromFiles env (before @ after) src \<and>
      (\<forall>c\<in>set (discoverConversations env srcs). jsonlFile c \<noteq> f) \<and>
      backfillAgentMemory env store agentId request st
        = backfillAgentMemory (withUnreadable env f) store agentId request st \<and>
      (\<forall>r. fst (backfillAgentMemory env store agentId request st) = Inr r \<longrightarrow>
         total_discovered r
           = length (filter (\<lambda>c. jsonlFile c \<noteq> f) (discoverConversations env (requestedSources request))) \<and>
         (\<forall>src. discovered (sources r src)
            = length (ofSource src (filter (\<lambda>c. jsonlFile c \<noteq> f)
                                      (discoverConversations env (requestedSources request))))) \<and>
         f \<notin> set (unmapped_examples r) \<union> set (existing_examples r) \<union> set (inserted_examples r))) \<and>
   (\<forall>c\<in>set (discoverConversations env srcs).
      \<exists>content. readFileSync env (jsonlFile c) = Some content \<and>
        messageCount c = length (visibleLines content) \<and> 1 \<le> messageCount c)"
proof -
  have members: "\<exists>content. readFileSync env (jsonlFile c) = Some content \<and>
        messageCount c = length (visibleLines content) \<and> 1 \<le> messageCount c"
    if "c \<in> set (discoverConversations env ss)" for c ss
  proof -
    from that obtain files where "c \<in> set (discoverConversationsFromFiles env files (source c))"
      using discover_member by blast
    from discoverFromFiles_member [OF this] show ?thesis by (simp add: nonBlank_visible)
  qed
  have blank: "discoverConversationsFromFiles env (before @ f # after) src
        = discoverConversationsFromFiles env (before @ after) src \<and>
      (\<forall>c\<in>set (discoverConversations env srcs). jsonlFile c \<noteq> f) \<and>
      backfillAgentMemory env store agentId request st
        = backfillAgentMemory (withUnreadable env f) store agentId request st \<and>
      (\<forall>r. fst (backfillAgentMemory env store agentId request st) = Inr r \<longrightarrow>
         total_discovered r
           = length (filter (\<lambda>c. jsonlFile c \<noteq> f) (discoverConversations env (requestedSources request))) \<and>
         (\<forall>src. discovered (sources r src)
            = length (ofSource src (filter (\<lambda>c. jsonlFile c \<noteq> f)
                                      (discoverConversations env (requestedSources request))))) \<and>
         f \<notin> set (unmapped_examples r) \<union> set (existing_examples r) \<union> set (inserted_examples r))"
    if a: "readFileSync env f = Some raw \<and> visibleLines raw = []"
  proof -
    from a have rd: "readFileSync env f = Some raw" and nb: "nonBlankLines raw = []"
      by (simp_all add: nonBlank_visible)
    have one: "discoverConversationsFromFiles env [f] src = []" using rd nb by simp
    have files: "discoverConversationsFromFiles env (before @ f # after) src
        = discoverConversationsFromFiles env (before @ after) src"
      using discoverFromFiles_append [of env before "[f] @ after" src]
        discoverFromFiles_append [of env "[f]" after src]
        discoverFromFiles_append [of env before after src] one
      by simp
    have none: "jsonlFile c \<noteq> f" if "c \<in> set (discoverConversations env ss)" for c ss
      using members [OF that] rd a by auto
    have same: "backfillAgentMemory env store agentId request st
        = backfillAgentMemory (withUnreadable env f) store agentId request st"
      by (rule backfill_unreadable [OF rd nb, symmetric])
    have rep: "total_discovered r
           = length (filter (\<lambda>c. jsonlFile c \<noteq> f) (discoverConversations env (requestedSources request))) \<and>
         (\<forall>src. discovered (sources r src)
            = length (ofSource src (filter (\<lambda>c. jsonlFile c \<noteq> f)
                                      (discoverConversations env (requestedSources request))))) \<and>
         f \<notin> set (unmapped_examples r) \<union> set (existing_examples r) \<union> set (inserted_examples r)"
      if r: "fst (backfillAgentMemory env store agentId request st) = Inr r" for r
    proof -
      have "filter (\<lambda>c. jsonlFile c \<noteq> f) (discoverConversations env (requestedSources request))
          = discoverConversations env (requestedSources request)"
        using none by (simp add: filter_id_conv)
      moreover have "f \<notin> jsonlFile ` set (discoverConversations env (requestedSources request))"
        using none by auto
      ultimately show ?thesis
        using backfill_total_discovered [OF r] backfill_examples [OF r] by auto
    qed
    from files none same rep show ?thesis by blast
  qed
  from members blank show ?thesis by blast
qed

text \<open>
  With "non-empty" read literally (a line of at least one character) the count is not
  \<open>messageCount\<close>: the file \<open>b.jsonl\<close> of the second installation holds one metadata line
  and one line made of a single space, two non-empty lines, and its conversation is
  discovered with \<open>messageCount = 1\<close>.
\<close>

theorem blank_transcripts_are_not_discovered_counterexample:
  "readFileSync secondEnv ''/home/u/.claude/projects/b.jsonl''
     = Some (lineMeta @ [CHR 0x0A, CHR '' '', CHR 0x0A]) \<and>
   length (nonEmptyLines (lineMeta @ [CHR 0x0A, CHR '' '', CHR 0x0A])) = 2 \<and>
   map jsonlFile (discoverConversationsFromFiles secondEnv [''/home/u/.claude/projects/b.jsonl''] claude)
     = [''/home/u/.claude/projects/b.jsonl''] \<and>
   map messageCount (discoverConversationsFromFiles secondEnv [''/home/u/.claude/projects/b.jsonl''] claude)
     = [1]"
  by code_simp

text \<open>
  The example installation has a transcript made of a space and a tab on two lines: it
  is left out of the scan, and the run over the map-backed store reports one discovered
  conversation and does not list the file.
\<close>

theorem blank_transcripts_are_not_discovered_witness:
  "readFileSync exampleEnv ''/home/u/.claude/projects/p/blank.jsonl'' = Some [CHR '' '', CHR 0x0A, CHR 0x09, CHR 0x0A] \<and>
   visibleLines [CHR '' '', CHR 0x0A, CHR 0x09, CHR 0x0A] = [] \<and>
   discoverConversationsFromFiles exampleEnv
       ([''/home/u/.claude/projects/p/a.jsonl''] @ ''/home/u/.claude/projects/p/blank.jsonl'' # []) claude
     = discoverConversationsFromFiles exampleEnv ([''/home/u/.claude/projects/p/a.jsonl''] @ []) claude \<and>
   discoverConversations exampleEnv [claude, codex] \<noteq> [] \<and>
   jsonlFile (hd (discoverConversations exampleEnv [claude, codex]))
     \<noteq> ''/home/u/.claude/projects/p/blank.jsonl'' \<and>
   1 \<le> messageCount (hd (discoverConversations exampleEnv [claude, codex])) \<and>
   total_discovered (projr (fst (backfillAgentMemory exampleEnv keyedStore ''agent-1'' emptyRequest emptyState))) = 1 \<and>
   ''/home/u/.claude/projects/p/blank.jsonl''
     \<notin> set (inserted_examples (projr (fst (backfillAgentMemory exampleEnv keyedStore ''agent-1''
                                            emptyRequest emptyState))))"
proof -
  let ?f = "''/home/u/.claude/projects/p/blank.jsonl''"
  let ?R = "backfillAgentMemory exampleEnv keyedStore ''agent-1'' emptyRequest emptyState"
  have h: "readFileSync exampleEnv ?f = Some [CHR '' '', CHR 0x0A, CHR 0x09, CHR 0x0A] \<and>
     visibleLines [CHR '' '', CHR 0x0A, CHR 0x09, CHR 0x0A] = []"
    by code_simp
  have ne: "discoverConversations exampleEnv [claude, codex] \<noteq> []" by code_simp
  then have m: "hd (discoverConversations exampleEnv [claude, codex])
      \<in> set (discoverConversations exampleEnv [claude, codex])" by simp
  have "\<not> isl (fst ?R)" by code_simp
  then have r: "fst ?R = Inr (projr (fst ?R))" by (cases "fst ?R") simp_all
  have n: "length (filter (\<lambda>c. jsonlFile c \<noteq> ?f) (discoverConversations exampleEnv (requestedSources emptyRequest))) = 1"
    by code_simp
  from blank_transcripts_are_not_discovered
         [of exampleEnv ?f "[CHR '' '', CHR 0x0A, CHR 0x09, CHR 0x0A]"
             "[''/home/u/.claude/projects/p/a.jsonl'']" "[]" claude "[claude, codex]"
             keyedStore "''agent-1''" emptyRequest emptyState] h ne m r n
  show ?thesis by auto
qed

subsection \<open>Discovery counts and the cap\<close>

lemma bump_cap: "max_files_applied (bump f src r) = max_files_applied r"
  by (simp add: bump_def)

lemma countDiscovered_cap:
  "max_files_applied (foldl countDiscovered r items) = max_files_applied r"
  by (induction items arbitrary: r) (simp_all add: countDiscovered_def bump_cap)

lemma reportBeforeMatching_cap:
  "max_files_applied (reportBeforeMatching env agentId request found) = requestedMaxFiles request"
  by (simp add: reportBeforeMatching_def Let_def countDiscovered_cap emptyReport_def)

lemma matchLoop_cap:
  "max_files_applied (fst (matchLoop wds items (r, ms))) = max_files_applied r"
proof (induction items arbitrary: r ms)
  case Nil
  then show ?case by simp
next
  case (Cons item items)
  show ?case
    by (cases "\<not> truthyStr (normalizedCwdOf item) \<or> the (normalizedCwdOf item) \<notin> set wds")
       (simp_all add: Let_def Cons bump_cap)
qed

lemma tally_cap: "max_files_applied (tally ex r items) = max_files_applied r"
  unfolding tally_def
  by (induction items arbitrary: r)
     (simp_all add: countExisting_def countInserted_def bump_cap Let_def)

lemma backfill_cap:
  assumes "fst (backfillAgentMemory env store agentId request st) = Inr r"
  shows "max_files_applied r = requestedMaxFiles request"
proof -
  from backfill_report [OF assms] obtain ex ms where "r = tally ex (fst (matchLoop
     (workingDirectories (resolverResult env store agentId request st)) (classifiedItems env request)
     (reportBeforeMatching env agentId request (resolverResult env store agentId request st), []))) ms"
    by blast
  then show ?thesis by (simp add: tally_cap matchLoop_cap reportBeforeMatching_cap)
qed

text \<open>
  C5. Whenever the engine returns a report: \<open>total_discovered\<close> is the number of
  conversations discovered before any cut and equals the sum of the two sources'
  \<open>discovered\<close> counters. The cap the report carries, \<open>max_files_applied\<close>, is the request's
  \<open>maxFiles\<close> when that is a positive number and 5000 when it is absent or not positive.
  \<open>truncated\<close> holds exactly when the number of discovered conversations exceeds the cap,
  and the items that are classified as matched or unmapped are the first
  \<open>max_files_applied\<close> discovered ones; when truncated, \<open>total_matched + total_unmapped\<close> is
  the cap. So \<open>total_matched + total_unmapped \<le> total_discovered\<close>, with equality when the
  report is not truncated.
\<close>

theorem discovered_counts_and_truncation:
  "fst (backfillAgentMemory env store agentId request st) = Inr r \<Longrightarrow>
   total_discovered r = length (discoverConversations env (requestedSources request)) \<and>
   total_discovered r = discovered (sources r claude) + discovered (sources r codex) \<and>
   (\<forall>n. maxFiles request = Some n \<and> 0 < n \<longrightarrow> int (max_files_applied r) = n) \<and>
   (maxFiles request = None \<or> (\<exists>n. maxFiles request = Some n \<and> n \<le> 0) \<longrightarrow> max_files_applied r = 5000) \<and>
   (truncated r \<longleftrightarrow> length (discoverConversations env (requestedSources request)) > max_files_applied r) \<and>
   (truncated r \<longrightarrow> total_matched r + total_unmapped r = max_files_applied r) \<and>
   total_matched r
     = length (filter (isMatched (working_directories r))
                 (take (max_files_applied r) (discoverConversations env (requestedSources request)))) \<and>
   total_unmapped r
     = length (filter (\<lambda>i. \<not> isMatched (working_directories r) i)
                 (take (max_files_applied r) (discoverConversations env (requestedSources request)))) \<and>
   total_matched r + total_unmapped r
     = length (take (max_files_applied r) (discoverConversations env (requestedSources request))) \<and>
   total_matched r + total_unmapped r \<le> total_discovered r \<and>
   (\<not> truncated r \<longrightarrow> total_matched r + total_unmapped r = total_discovered r)"
proof -
  assume a: "fst (backfillAgentMemory env store agentId request st) = Inr r"
  let ?found = "resolverResult env store agentId request st"
  let ?wds = "workingDirectories ?found"
  let ?all = "discoverConversations env (requestedSources request)"
  let ?items = "take (max_files_applied r) ?all"
  let ?rb = "reportBeforeMatching env agentId request ?found"
  let ?r0 = "fst (matchLoop ?wds (classifiedItems env request) (?rb, []))"
  let ?ms = "map withNormalizedCwd (filter (isMatched ?wds) (classifiedItems env request))"
  from backfill_report [OF a] obtain ex where r: "r = tally ex ?r0 ?ms" by blast
  have cap: "max_files_applied r = requestedMaxFiles request" by (rule backfill_cap [OF a])
  have items: "classifiedItems env request = ?items" by (simp add: classifiedItems_def cap)
  have capPos: "int (max_files_applied r) = n" if "maxFiles request = Some n \<and> 0 < n" for n
    using that by (simp add: cap requestedMaxFiles_def)
  have capDef: "max_files_applied r = 5000"
    if "maxFiles request = None \<or> (\<exists>n. maxFiles request = Some n \<and> n \<le> 0)"
    using that by (auto simp: cap requestedMaxFiles_def)
  have td: "total_discovered r = length ?all"
    by (simp add: r tally_fields matchLoop_fields reportBeforeMatching_fields)
  have d: "discovered (sources r src) = length (ofSource src ?all)" for src
    by (simp add: r tally_fields matchLoop_fields reportBeforeMatching_fields)
  have tr: "truncated r \<longleftrightarrow> length ?all > max_files_applied r"
    unfolding cap by (simp add: r tally_fields matchLoop_fields reportBeforeMatching_fields)
  have wd: "working_directories r = ?wds"
    by (simp add: r tally_fields matchLoop_fields reportBeforeMatching_fields)
  have tm: "total_matched r = length (filter (isMatched (working_directories r)) ?items)"
    unfolding wd items [symmetric]
    by (simp add: r tally_fields matchLoop_fields reportBeforeMatching_fields)
  have tu: "total_unmapped r = length (filter (\<lambda>i. \<not> isMatched (working_directories r) i) ?items)"
    unfolding wd items [symmetric]
    by (simp add: r tally_fields matchLoop_fields reportBeforeMatching_fields)
  have cls: "total_matched r + total_unmapped r = length ?items"
    using tm tu sum_length_filter_compl [of "isMatched (working_directories r)" ?items] by simp
  have len: "length ?items = min (max_files_applied r) (length ?all)"
    by (simp add: min_def)
  have sum: "total_discovered r = discovered (sources r claude) + discovered (sources r codex)"
    using td d [of claude] d [of codex] ofSource_split [of ?all] by simp
  have le: "total_matched r + total_unmapped r \<le> total_discovered r"
    using cls len td by simp
  have eq: "\<not> truncated r \<longrightarrow> total_matched r + total_unmapped r = total_discovered r"
    using cls len td tr by simp
  have trc: "truncated r \<longrightarrow> total_matched r + total_unmapped r = max_files_applied r"
    using cls len tr by simp
  from td sum capPos capDef tr trc tm tu cls le eq show ?thesis by blast
qed

text \<open>
  The second installation holds two transcripts; with \<open>maxFiles = 1\<close> the report has
  \<open>total_discovered = 2\<close>, cap 1, \<open>truncated\<close> set, and one classified item.
\<close>

theorem discovered_counts_and_truncation_witness:
  "\<not> isl (fst (backfillAgentMemory secondEnv keyedStore ''agent-1'' (emptyRequest\<lparr>maxFiles := Some 1\<rparr>) emptyState)) \<and>
   maxFiles (emptyRequest\<lparr>maxFiles := Some 1\<rparr>) = Some 1 \<and>
   length (discoverConversations secondEnv (requestedSources (emptyRequest\<lparr>maxFiles := Some 1\<rparr>))) = 2 \<and>
   total_discovered (projr (fst (backfillAgentMemory secondEnv keyedStore ''agent-1''
                          (emptyRequest\<lparr>maxFiles := Some 1\<rparr>) emptyState))) = 2 \<and>
   max_files_applied (projr (fst (backfillAgentMemory secondEnv keyedStore ''agent-1''
                          (emptyRequest\<lparr>maxFiles := Some 1\<rparr>) emptyState))) = 1 \<and>
   truncated (projr (fst (backfillAgentMemory secondEnv keyedStore ''agent-1''
                          (emptyRequest\<lparr>maxFiles := Some 1\<rparr>) emptyState))) \<and>
   total_matched (projr (fst (backfillAgentMemory secondEnv keyedStore ''agent-1''
                          (emptyRequest\<lparr>maxFiles := Some 1\<rparr>) emptyState)))
     + total_unmapped (projr (fst (backfillAgentMemory secondEnv keyedStore ''agent-1''
                          (emptyRequest\<lparr>maxFiles := Some 1\<rparr>) emptyState))) = 1"
proof -
  let ?q = "emptyRequest\<lparr>maxFiles := Some 1\<rparr>"
  let ?R = "backfillAgentMemory secondEnv keyedStore ''agent-1'' ?q emptyState"
  have ok: "\<not> isl (fst ?R)" by code_simp
  then have r: "fst ?R = Inr (projr (fst ?R))" by (cases "fst ?R") simp_all
  have m: "maxFiles ?q = Some 1" by simp
  have n: "length (discoverConversations secondEnv (requestedSources ?q)) = 2" by code_simp
  from discovered_counts_and_truncation [OF r] ok m n show ?thesis by auto
qed

subsection \<open>Dry-run\<close>

lemma conversationFilesOf_set:
  "conversationFilesOf store d projects acc = Inr ex \<Longrightarrow>
   set ex = set acc \<union> {f. f \<noteq> [] \<and> (\<exists>projectPath rows. projectPath \<in> set projects \<and>
                 getConversations store d projectPath = Inr rows \<and> Some f \<in> set rows)}"
proof (induction projects arbitrary: acc)
  case Nil
  then show ?case by simp
next
  case (Cons p projects)
  from Cons.prems obtain rows where rows: "getConversations store d p = Inr rows"
    and rest: "conversationFilesOf store d projects (foldl addRow acc rows) = Inr ex"
    by (cases "getConversations store d p") simp_all
  from Cons.IH [OF rest] rows_fold_set [of acc rows] rows show ?case by auto
qed

lemma existing_files_are_stored:
  "getExistingConversationFiles store d = Inr ex \<Longrightarrow> set ex = storedTranscripts store d"
proof -
  assume a: "getExistingConversationFiles store d = Inr ex"
  then obtain projects where p: "getProjects store d = Inr projects"
    and c: "conversationFilesOf store d projects [] = Inr ex"
    by (cases "getProjects store d") (simp_all add: getExistingConversationFiles_def)
  from conversationFilesOf_set [OF c] p show ?thesis by (auto simp: storedTranscripts_def)
qed

lemma noneThrew_append: "noneThrew (xs @ ys) \<longleftrightarrow> noneThrew xs \<and> noneThrew ys"
  by (simp add: noneThrew_def)

lemma newCalls_append: "calls st' = calls st @ new \<Longrightarrow> newCalls st st' = new"
  by (simp add: newCalls_def)

lemma sessionLoop_same_found:
  "noneThrew (newCalls st (snd (sessionLoop env store agentId True sessions acc st))) \<Longrightarrow>
   fst (sessionLoop env store agentId True sessions acc st)
     = fst (sessionLoop env store agentId False sessions acc st0)"
proof (induction sessions arbitrary: acc st)
  case Nil
  then show ?case by simp
next
  case (Cons s rest)
  show ?case
  proof (cases s)
    case None
    then show ?thesis by simp
  next
    case (Some session)
    show ?thesis
    proof (cases "ls_agentId session = agentId")
      case False
      then show ?thesis using Cons Some by simp
    next
      case True
      let ?w = "RecordSession (sessionRecordOf env agentId session)"
      obtain res st1 where pw: "performWrite store ?w st = (res, st1)"
        by (cases "performWrite store ?w st")
      have c1: "calls st1 = calls st @ [(?w, res)]"
        using performWrite_calls [of store ?w st] pw by simp
      show ?thesis
      proof (cases res)
        case (Some e)
        then have "snd (sessionLoop env store agentId True (s # rest) acc st) = st1"
          using \<open>s = Some session\<close> True pw by simp
        then have "newCalls st (snd (sessionLoop env store agentId True (s # rest) acc st)) = [(?w, Some e)]"
          using newCalls_append [OF c1] Some by simp
        with Cons.prems show ?thesis by (simp add: noneThrew_def)
      next
        case None
        let ?acc = "noteSession acc session"
        let ?st2 = "snd (sessionLoop env store agentId True rest ?acc st1)"
        have step: "sessionLoop env store agentId True (s # rest) acc st
            = sessionLoop env store agentId True rest ?acc st1"
          using \<open>s = Some session\<close> True pw None by simp
        from sessionLoop_calls [of env store agentId True rest ?acc st1]
        obtain new where c2: "calls ?st2 = calls st1 @ new" by blast
        have "newCalls st ?st2 = (?w, res) # new"
          using c1 c2 by (simp add: newCalls_def)
        with Cons.prems have "noneThrew new" by (simp add: step noneThrew_def)
        then have "noneThrew (newCalls st1 ?st2)" using newCalls_append [OF c2] by simp
        have stepF: "sessionLoop env store agentId False (s # rest) acc st0
            = sessionLoop env store agentId False rest ?acc st0"
          using \<open>s = Some session\<close> True by simp
        from Cons.IH [OF \<open>noneThrew (newCalls st1 ?st2)\<close>] show ?thesis
          unfolding step stepF .
      qed
    qed
  qed
qed

lemma fetch_same_found:
  "noneThrew (newCalls st (snd (fetchWorkingDirectoriesForAgent env store agentId True st))) \<Longrightarrow>
   fst (fetchWorkingDirectoriesForAgent env store agentId True st)
     = fst (fetchWorkingDirectoriesForAgent env store agentId False st)"
  using sessionLoop_same_found [of st env store agentId]
  by (cases "liveSessions env") (simp_all add: fetchWorkingDirectoriesForAgent_def Let_def)

lemma backfill_session_calls:
  assumes run: "backfillAgentMemory env store agentId request st = (Inr r, st')"
    and ok: "noneThrew (newCalls st st')"
  shows "noneThrew (newCalls st (lookupState env store agentId request st))"
proof -
  let ?fetched = "fetchWorkingDirectoriesForAgent env store agentId (dryRun request \<noteq> Some True) st"
  let ?cls = "matchLoop (workingDirectories (fst ?fetched)) (classifiedItems env request)
                  (reportBeforeMatching env agentId request (fst ?fetched), [])"
  from fetch_calls [of env store agentId "dryRun request \<noteq> Some True" st]
  obtain new0 where c0: "calls (snd ?fetched) = calls st @ new0" by blast
  from run obtain ex where "getExistingConversationFiles store (db (snd ?fetched)) = Inr ex"
    and loop: "insertLoop store (dryRun request = Some True) ex (snd ?cls) (fst ?cls) (snd ?fetched) = (Inr r, st')"
    unfolding backfill_stages Let_def
    by (cases "getExistingConversationFiles store (db (snd ?fetched))") simp_all
  from insertLoop_result [OF loop] obtain new where c1: "calls st' = calls (snd ?fetched) @ new" by blast
  have "newCalls st st' = new0 @ new" using c0 c1 by (simp add: newCalls_def)
  with ok have "noneThrew new0" by (simp add: noneThrew_append)
  then show ?thesis using newCalls_append [OF c0] by (simp add: lookupState_def)
qed

lemma backfill_inserted:
  assumes "fst (backfillAgentMemory env store agentId request st) = Inr r"
  shows "working_directories r = workingDirectories (resolverResult env store agentId request st) \<and>
     total_inserted r = length (newTranscripts env request (working_directories r)
                                  (storedTranscripts store (db (lookupState env store agentId request st)))) \<and>
     (\<forall>src. inserted (sources r src)
        = length (ofSource src (newTranscripts env request (working_directories r)
                                  (storedTranscripts store (db (lookupState env store agentId request st))))))"
proof -
  let ?found = "resolverResult env store agentId request st"
  let ?wds = "workingDirectories ?found"
  let ?items = "classifiedItems env request"
  let ?rb = "reportBeforeMatching env agentId request ?found"
  let ?r0 = "fst (matchLoop ?wds ?items (?rb, []))"
  let ?ms = "map withNormalizedCwd (filter (isMatched ?wds) ?items)"
  let ?stored = "storedTranscripts store (db (lookupState env store agentId request st))"
  from backfill_report [OF assms] obtain ex where
    ex: "getExistingConversationFiles store (db (lookupState env store agentId request st)) = Inr ex"
    and r: "r = tally ex ?r0 ?ms" by blast
  have st: "set ex = ?stored" by (rule existing_files_are_stored [OF ex])
  have wd: "working_directories r = ?wds"
    by (simp add: r tally_fields matchLoop_fields reportBeforeMatching_fields)
  have ti: "total_inserted r = length (filter (\<lambda>i. jsonlFile i \<notin> set ex) ?ms)"
    by (simp add: r tally_fields matchLoop_fields reportBeforeMatching_fields)
  have i: "inserted (sources r src) = length (filter (\<lambda>i. jsonlFile i \<notin> set ex) (ofSource src ?ms))" for src
    by (simp add: r tally_fields matchLoop_fields reportBeforeMatching_fields)
  have n1: "length (filter (\<lambda>i. jsonlFile i \<notin> set ex) ?ms) = length (newTranscripts env request ?wds ?stored)"
    by (simp add: newTranscripts_def filter_file_map_normalized withNormalizedCwd_def st)
  have comm: "ofSource src (filter P xs) = filter P (ofSource src xs)" for src P and xs :: "DiscoveredConversation list"
    by (induction xs) (simp_all add: ofSource_def)
  have n2: "length (filter (\<lambda>i. jsonlFile i \<notin> set ex) (ofSource src ?ms))
      = length (ofSource src (newTranscripts env request ?wds ?stored))" for src
    by (simp add: newTranscripts_def ofSource_map_normalized filter_file_map_normalized comm
        withNormalizedCwd_def st)
  show ?thesis using ti i n1 n2 wd by auto
qed

lemma newTranscripts_flag:
  "newTranscripts env (request\<lparr>dryRun := d\<rparr>) = newTranscripts env request"
  by (simp add: newTranscripts_def classifiedItems_def requestedMaxFiles_def requestedSources_def fun_eq_iff)

text \<open>
  C2. With \<open>dryRun = true\<close> the engine makes no recording call and leaves the store as
  it was, whatever the outcome. A report it returns counts as inserted, per source and in
  total, exactly the matched conversations whose transcript path is not in the store
  (\<open>storedTranscripts\<close>, read off the store's two queries). The apply run of the same
  request from the same store counts by the same rule, over the working directories it
  resolved and the transcripts the store holds once its sessions are recorded. So its
  inserted counters, per source and in total, are those of the dry run whenever it
  resolved the same working directories and recording the sessions left the stored
  transcripts as they were; and it resolved the same working directories whenever none
  of its recording calls threw.
\<close>

theorem dry_run_writes_nothing_and_counts_inserts:
  "dryRun request = Some True \<Longrightarrow>
   snd (backfillAgentMemory env store agentId request st) = st \<and>
   (\<forall>r. fst (backfillAgentMemory env store agentId request st) = Inr r \<longrightarrow>
      total_inserted r
        = length (newTranscripts env request (working_directories r) (storedTranscripts store (db st))) \<and>
      (\<forall>src. inserted (sources r src)
         = length (ofSource src (newTranscripts env request (working_directories r)
                                   (storedTranscripts store (db st))))) \<and>
      (\<forall>flag r' st'. flag \<noteq> Some True \<and>
          backfillAgentMemory env store agentId (request\<lparr>dryRun := flag\<rparr>) st = (Inr r', st') \<longrightarrow>
          total_inserted r'
            = length (newTranscripts env request (working_directories r')
                        (storedTranscripts store
                           (db (lookupState env store agentId (request\<lparr>dryRun := flag\<rparr>) st)))) \<and>
          (\<forall>src. inserted (sources r' src)
             = length (ofSource src (newTranscripts env request (working_directories r')
                        (storedTranscripts store
                           (db (lookupState env store agentId (request\<lparr>dryRun := flag\<rparr>) st)))))) \<and>
          (noneThrew (newCalls st st') \<longrightarrow> working_directories r' = working_directories r) \<and>
          (working_directories r' = working_directories r \<and>
           storedTranscripts store (db (lookupState env store agentId (request\<lparr>dryRun := flag\<rparr>) st))
             = storedTranscripts store (db st) \<longrightarrow>
             total_inserted r' = total_inserted r \<and>
             (\<forall>src. inserted (sources r' src) = inserted (sources r src)))))"
proof -
  assume d: "dryRun request = Some True"
  have quiet: "snd (backfillAgentMemory env store agentId request st) = st"
    by (rule backfill_dry_state [OF d])
  have ls: "lookupState env store agentId request st = st"
    using d by (simp add: lookupState_def fetch_no_writes)
  have rest: "total_inserted r
        = length (newTranscripts env request (working_directories r) (storedTranscripts store (db st))) \<and>
      (\<forall>src. inserted (sources r src)
         = length (ofSource src (newTranscripts env request (working_directories r)
                                   (storedTranscripts store (db st))))) \<and>
      (\<forall>flag r' st'. flag \<noteq> Some True \<and>
          backfillAgentMemory env store agentId (request\<lparr>dryRun := flag\<rparr>) st = (Inr r', st') \<longrightarrow>
          total_inserted r'
            = length (newTranscripts env request (working_directories r')
                        (storedTranscripts store
                           (db (lookupState env store agentId (request\<lparr>dryRun := flag\<rparr>) st)))) \<and>
          (\<forall>src. inserted (sources r' src)
             = length (ofSource src (newTranscripts env request (working_directories r')
                        (storedTranscripts store
                           (db (lookupState env store agentId (request\<lparr>dryRun := flag\<rparr>) st)))))) \<and>
          (noneThrew (newCalls st st') \<longrightarrow> working_directories r' = working_directories r) \<and>
          (working_directories r' = working_directories r \<and>
           storedTranscripts store (db (lookupState env store agentId (request\<lparr>dryRun := flag\<rparr>) st))
             = storedTranscripts store (db st) \<longrightarrow>
             total_inserted r' = total_inserted r \<and>
             (\<forall>src. inserted (sources r' src) = inserted (sources r src))))"
    if r: "fst (backfillAgentMemory env store agentId request st) = Inr r" for r
  proof -
    note dry = backfill_inserted [OF r, unfolded ls]
    have wdry: "working_directories r
        = workingDirectories (fst (fetchWorkingDirectoriesForAgent env store agentId False st))"
      using dry d by (simp add: resolverResult_def)
    have app: "total_inserted r'
            = length (newTranscripts env request (working_directories r')
                        (storedTranscripts store
                           (db (lookupState env store agentId (request\<lparr>dryRun := flag\<rparr>) st)))) \<and>
          (\<forall>src. inserted (sources r' src)
             = length (ofSource src (newTranscripts env request (working_directories r')
                        (storedTranscripts store
                           (db (lookupState env store agentId (request\<lparr>dryRun := flag\<rparr>) st)))))) \<and>
          (noneThrew (newCalls st st') \<longrightarrow> working_directories r' = working_directories r) \<and>
          (working_directories r' = working_directories r \<and>
           storedTranscripts store (db (lookupState env store agentId (request\<lparr>dryRun := flag\<rparr>) st))
             = storedTranscripts store (db st) \<longrightarrow>
             total_inserted r' = total_inserted r \<and>
             (\<forall>src. inserted (sources r' src) = inserted (sources r src)))"
      if h: "flag \<noteq> Some True \<and>
          backfillAgentMemory env store agentId (request\<lparr>dryRun := flag\<rparr>) st = (Inr r', st')"
      for flag r' st'
    proof -
      let ?q = "request\<lparr>dryRun := flag\<rparr>"
      from h have run: "backfillAgentMemory env store agentId ?q st = (Inr r', st')" by simp
      then have r': "fst (backfillAgentMemory env store agentId ?q st) = Inr r'" by simp
      note apl = backfill_inserted [OF r', unfolded newTranscripts_flag]
      have wapl: "working_directories r'
          = workingDirectories (fst (fetchWorkingDirectoriesForAgent env store agentId True st))"
        using apl h by (simp add: resolverResult_def)
      have same: "working_directories r' = working_directories r" if ok: "noneThrew (newCalls st st')"
      proof -
        from backfill_session_calls [OF run ok] h
        have "noneThrew (newCalls st (snd (fetchWorkingDirectoriesForAgent env store agentId True st)))"
          by (simp add: lookupState_def)
        from fetch_same_found [OF this] wapl wdry show ?thesis by simp
      qed
      from apl dry same show ?thesis by auto
    qed
    from dry app show ?thesis by blast
  qed
  from quiet rest show ?thesis by blast
qed

text \<open>
  Without the condition on the recording calls the two modes differ. In the second
  installation the first listed session has no working directory and the second one
  has; over a store whose \<open>recordSession\<close> throws, the apply run stops listing at the
  first session, resolves no working directory and inserts nothing, while the dry run
  resolves \<open>/home/u/p\<close> and counts two inserts.
\<close>

theorem dry_run_writes_nothing_and_counts_inserts_counterexample:
  "dryRun (emptyRequest\<lparr>dryRun := Some True\<rparr>) = Some True \<and>
   dryRun emptyRequest = None \<and>
   snd (backfillAgentMemory secondEnv sessionlessStore ''agent-1''
          (emptyRequest\<lparr>dryRun := Some True\<rparr>) emptyState) = emptyState \<and>
   map_sum id total_inserted (fst (backfillAgentMemory secondEnv sessionlessStore ''agent-1''
          (emptyRequest\<lparr>dryRun := Some True\<rparr>) emptyState)) = Inr 2 \<and>
   map_sum id total_inserted (fst (backfillAgentMemory secondEnv sessionlessStore ''agent-1''
          emptyRequest emptyState)) = Inr 0 \<and>
   map_sum id working_directories (fst (backfillAgentMemory secondEnv sessionlessStore ''agent-1''
          (emptyRequest\<lparr>dryRun := Some True\<rparr>) emptyState)) = Inr [''/home/u/p''] \<and>
   map_sum id working_directories (fst (backfillAgentMemory secondEnv sessionlessStore ''agent-1''
          emptyRequest emptyState)) = Inr []"
  by code_simp

text \<open>
  Over the map-backed store that already holds the first transcript of the second
  installation, the dry run changes nothing and counts one existing and one inserted
  conversation; the apply run makes four recording calls, none of which throws, and
  counts the same inserts.
\<close>

theorem dry_run_writes_nothing_and_counts_inserts_witness:
  "dryRun (emptyRequest\<lparr>dryRun := Some True\<rparr>) = Some True \<and>
   snd (backfillAgentMemory secondEnv keyedStore ''agent-1'' (emptyRequest\<lparr>dryRun := Some True\<rparr>) seededState)
     = seededState \<and>
   \<not> isl (fst (backfillAgentMemory secondEnv keyedStore ''agent-1'' (emptyRequest\<lparr>dryRun := Some True\<rparr>) seededState)) \<and>
   \<not> isl (fst (backfillAgentMemory secondEnv keyedStore ''agent-1'' emptyRequest seededState)) \<and>
   noneThrew (newCalls seededState (snd (backfillAgentMemory secondEnv keyedStore ''agent-1'' emptyRequest seededState))) \<and>
   length (newCalls seededState (snd (backfillAgentMemory secondEnv keyedStore ''agent-1'' emptyRequest seededState))) = 4 \<and>
   total_existing (projr (fst (backfillAgentMemory secondEnv keyedStore ''agent-1''
       (emptyRequest\<lparr>dryRun := Some True\<rparr>) seededState))) = 1 \<and>
   total_inserted (projr (fst (backfillAgentMemory secondEnv keyedStore ''agent-1''
       (emptyRequest\<lparr>dryRun := Some True\<rparr>) seededState))) = 1 \<and>
   total_inserted (projr (fst (backfillAgentMemory secondEnv keyedStore ''agent-1'' emptyRequest seededState)))
     = total_inserted (projr (fst (backfillAgentMemory secondEnv keyedStore ''agent-1''
         (emptyRequest\<lparr>dryRun := Some True\<rparr>) seededState)))"
proof -
  let ?q = "emptyRequest\<lparr>dryRun := Some True\<rparr>"
  let ?D = "backfillAgentMemory secondEnv keyedStore ''agent-1'' ?q seededState"
  let ?A = "backfillAgentMemory secondEnv keyedStore ''agent-1'' emptyRequest seededState"
  let ?L = "lookupState secondEnv keyedStore ''agent-1'' emptyRequest seededState"
  have h: "dryRun ?q = Some True" by simp
  have q: "?q\<lparr>dryRun := None\<rparr> = emptyRequest" by (simp add: emptyRequest_def)
  have okD: "\<not> isl (fst ?D)" by code_simp
  then have rD: "fst ?D = Inr (projr (fst ?D))" by (cases "fst ?D") simp_all
  have okA: "\<not> isl (fst ?A)" by code_simp
  then have "fst ?A = Inr (projr (fst ?A))" by (cases "fst ?A") simp_all
  then have rA: "?A = (Inr (projr (fst ?A)), snd ?A)" by (cases ?A) simp
  have quiet: "noneThrew (newCalls seededState (snd ?A))" by code_simp
  have n: "length (newCalls seededState (snd ?A)) = 4" by code_simp
  have counts: "total_existing (projr (fst ?D)) = 1 \<and> total_inserted (projr (fst ?D)) = 1" by code_simp
  have e1: "getExistingConversationFiles keyedStore (db seededState) = Inr [''/home/u/.claude/projects/a.jsonl'']"
    by code_simp
  have e2: "getExistingConversationFiles keyedStore (db ?L) = Inr [''/home/u/.claude/projects/a.jsonl'']"
    by code_simp
  have stored: "storedTranscripts keyedStore (db ?L) = storedTranscripts keyedStore (db seededState)"
    using existing_files_are_stored [OF e1] existing_files_are_stored [OF e2] by simp
  from dry_run_writes_nothing_and_counts_inserts [OF h, of secondEnv keyedStore "''agent-1''" seededState]
    rD rA quiet stored q
  have "total_inserted (projr (fst ?A)) = total_inserted (projr (fst ?D))" by (metis option.distinct(1))
  moreover have "snd ?D = seededState"
    using dry_run_writes_nothing_and_counts_inserts [OF h, of secondEnv keyedStore "''agent-1''" seededState]
    by blast
  ultimately show ?thesis using h okD okA quiet n counts by blast
qed

subsection \<open>Store failures\<close>















end
